theory Spec2Isabelle
  imports Complex_Main "HOL-Library.List_Lexorder" "HOL-Library.Log_Nat" "HOL-Library.Multiset"
    "HOL-Library.Word"
begin

section \<open>JavaScript values\<close>

text \<open>
  Text is a sequence of Unicode code points. None of the patterns the program applies to a
  string matches half of a surrogate pair, so a code point can stand for the one or two UTF-16
  code units JavaScript stores for it. The lexicographic order on these sequences is the order
  of their UTF-8 encodings, which is how the storage engine compares \<open>TEXT\<close> values.
  Program literals are written \<open>str ''...''\<close>.
\<close>

type_synonym jsstring = "nat list"

definition str :: "string \<Rightarrow> jsstring" where
  "str = map of_char"

text \<open>\<open>s.startsWith(p)\<close> and \<open>s.includes(p)\<close>.\<close>

definition startsWith :: "jsstring \<Rightarrow> jsstring \<Rightarrow> bool" where
  "startsWith s p = (take (length p) s = p)"

fun js_includes :: "jsstring \<Rightarrow> jsstring \<Rightarrow> bool" where
  "js_includes [] p = (p = [])"
| "js_includes (c # cs) p = (startsWith (c # cs) p \<or> js_includes cs p)"

text \<open>
  A value caught by a \<open>catch\<close> clause: either an object carrying the optional fields the
  handlers read (\<open>code\<close>, \<open>errno\<close>, \<open>message\<close>), or something that is not an object.
\<close>

datatype thrown =
    NotAnObject
  | ErrorObj (code: "jsstring option") (errno: "int option") (message: "jsstring option")

section \<open>Opening the store\<close>

subsection \<open>Files, the engine and injected failures\<close>

text \<open>
  The files of the \<open>data\<close> directory: the database \<open>trips.db\<close>, the backups
  \<open>trips.corrupted.<timestamp>.db\<close>, and anything else. What the engine can observe of a file
  is whether it is a database image at all, what the first row of \<open>PRAGMA integrity_check\<close>
  says, and which tables \<open>sqlite_master\<close> lists.
\<close>

datatype path = TripsDb | Corrupted nat | OtherFile jsstring

record dbfile =
  is_database :: bool
  integrity :: "jsstring option"
  tables :: "jsstring list"

datatype handle = Handle path

text \<open>
  The world the startup code runs in. \<open>db\<close> is the module-level singleton. \<open>faults\<close> is the
  environment's script for the calls that can fail: each such call consumes one entry, and
  \<open>Some e\<close> makes it throw \<open>e\<close> without any effect; an exhausted script injects nothing.
\<close>

record world =
  files :: "path \<Rightarrow> dbfile option"
  data_dir :: bool
  db :: "handle option"
  faults :: "thrown option list"

type_synonym 'a io = "world \<Rightarrow> (thrown + 'a) \<times> world"

definition take_fault :: "world \<Rightarrow> thrown option \<times> world" where
  "take_fault w = (case faults w of [] \<Rightarrow> (None, w) | f # fs \<Rightarrow> (f, w\<lparr>faults := fs\<rparr>))"

text \<open>Sequencing of calls that may throw: \<open>await a; b\<close>.\<close>

definition andThen :: "'a io \<Rightarrow> ('a \<Rightarrow> 'b io) \<Rightarrow> 'b io" where
  "andThen m k w = (case m w of (Inl e, w') \<Rightarrow> (Inl e, w') | (Inr x, w') \<Rightarrow> k x w')"

definition fallible :: "(world \<Rightarrow> (thrown + 'a) \<times> world) \<Rightarrow> 'a io" where
  "fallible body w = (case take_fault w of (Some e, w') \<Rightarrow> (Inl e, w') | (None, w') \<Rightarrow> body w')"

definition fs_error :: "string \<Rightarrow> thrown" where
  "fs_error c = ErrorObj (Some (str c)) None (Some (str c))"

definition sqlite_error :: "string \<Rightarrow> int \<Rightarrow> string \<Rightarrow> thrown" where
  "sqlite_error c n m = ErrorObj (Some (str c)) (Some n) (Some (str c @ str '': '' @ str m))"

definition js_error :: "string \<Rightarrow> thrown" where
  "js_error m = ErrorObj None None (Some (str m))"

definition existsSync :: "path \<Rightarrow> world \<Rightarrow> bool" where
  "existsSync p w = (files w p \<noteq> None)"

definition mkdirSync :: "unit io" where
  "mkdirSync = fallible (\<lambda>w. (Inr (), w\<lparr>data_dir := True\<rparr>))"

definition renameSync :: "path \<Rightarrow> path \<Rightarrow> unit io" where
  "renameSync src dst = fallible (\<lambda>w.
     case files w src of
       None \<Rightarrow> (Inl (fs_error ''ENOENT''), w)
     | Some f \<Rightarrow> (Inr (), w\<lparr>files := (files w)(dst := Some f, src := None)\<rparr>))"

text \<open>A file the engine has just created: an empty database without tables.\<close>

definition empty_file :: dbfile where
  "empty_file = \<lparr>is_database = True, integrity = Some (str ''ok''), tables = []\<rparr>"

definition cantopen :: thrown where
  "cantopen = sqlite_error ''SQLITE_CANTOPEN'' 14 ''unable to open database file''"

definition notadb :: thrown where
  "notadb = sqlite_error ''SQLITE_NOTADB'' 26 ''file is not a database''"

definition sqlite_open :: "path \<Rightarrow> handle io" where
  "sqlite_open p = fallible (\<lambda>w.
     if \<not> data_dir w then (Inl cantopen, w)
     else (Inr (Handle p),
           case files w p of None \<Rightarrow> w\<lparr>files := (files w)(p := Some empty_file)\<rparr> | Some f \<Rightarrow> w))"

text \<open>
  The statements of the startup code, run on a handle. \<open>SELECT 1\<close> reads no page of the
  file; the integrity check, the query on \<open>sqlite_master\<close> and \<open>CREATE TABLE\<close> do, and throw
  when the file is gone or is no database.
\<close>

definition with_file :: "handle \<Rightarrow> (dbfile \<Rightarrow> world \<Rightarrow> (thrown + 'a) \<times> world) \<Rightarrow> 'a io" where
  "with_file h body = fallible (\<lambda>w.
     case h of Handle p \<Rightarrow>
       (case files w p of
          None \<Rightarrow> (Inl cantopen, w)
        | Some f \<Rightarrow> if is_database f then body f w else (Inl notadb, w)))"

definition db_select_1 :: "handle \<Rightarrow> unit io" where
  "db_select_1 h = fallible (\<lambda>w. (Inr (), w))"

definition db_integrity_check :: "handle \<Rightarrow> jsstring option io" where
  "db_integrity_check h = with_file h (\<lambda>f w. (Inr (integrity f), w))"

text \<open>
  \<open>SELECT name FROM sqlite_master WHERE type='table' AND name IN ('trips', 'settings')\<close>.
\<close>

definition required_tables :: "dbfile \<Rightarrow> jsstring list" where
  "required_tables f = filter (\<lambda>n. n \<in> set [str ''trips'', str ''settings'']) (tables f)"

definition db_required_tables :: "handle \<Rightarrow> jsstring list io" where
  "db_required_tables h = with_file h (\<lambda>f w. (Inr (required_tables f), w))"

definition db_create_table :: "jsstring \<Rightarrow> handle \<Rightarrow> unit io" where
  "db_create_table name h = with_file h (\<lambda>f w.
     case h of Handle p \<Rightarrow>
       (Inr (), if name \<in> set (tables f) then w
                else w\<lparr>files := (files w)(p := Some (f\<lparr>tables := tables f @ [name]\<rparr>))\<rparr>))"

definition db_close :: "handle \<Rightarrow> unit io" where
  "db_close h = fallible (\<lambda>w. (Inr (), w))"

subsection \<open>validateDatabase\<close>

record validation =
  isHealthy :: bool
  isFreshDatabase :: bool

definition corrupt :: validation where
  "corrupt = \<lparr>isHealthy = False, isFreshDatabase = False\<rparr>"

definition healthy_fresh :: validation where
  "healthy_fresh = \<lparr>isHealthy = True, isFreshDatabase = True\<rparr>"

definition healthy_existing :: validation where
  "healthy_existing = \<lparr>isHealthy = True, isFreshDatabase = False\<rparr>"

text \<open>
  The body of the \<open>try\<close> block of \<open>validateDatabase\<close>; the function itself turns anything thrown
  into the verdict \<open>corrupt\<close>.
\<close>

definition validate_body :: "handle \<Rightarrow> bool \<Rightarrow> validation io" where
  "validate_body database fileExistedBefore =
     andThen (db_select_1 database) (\<lambda>_.
     andThen (db_integrity_check database) (\<lambda>result.
       if result \<noteq> Some (str ''ok'') then (\<lambda>w. (Inr corrupt, w))
       else andThen (db_required_tables database) (\<lambda>tables.
         if length tables < 2 then
           (if \<not> fileExistedBefore then (\<lambda>w. (Inr healthy_fresh, w))
            else (\<lambda>w. (Inr corrupt, w)))
         else (\<lambda>w. (Inr healthy_existing, w)))))"

definition validateDatabase :: "handle \<Rightarrow> bool \<Rightarrow> world \<Rightarrow> validation \<times> world" where
  "validateDatabase database fileExistedBefore w =
     (case validate_body database fileExistedBefore w of
        (Inl e, w') \<Rightarrow> (corrupt, w')
      | (Inr v, w') \<Rightarrow> (v, w'))"

subsection \<open>createTables, recoverDatabase, getDatabase\<close>

definition createTables :: "handle \<Rightarrow> unit io" where
  "createTables database =
     andThen (db_create_table (str ''trips'') database) (\<lambda>_.
       db_create_table (str ''settings'') database)"

text \<open>
  \<open>recoverDatabase\<close>; \<open>now\<close> is the value \<open>Date.now()\<close> returns in this call. Anything thrown
  in the body is caught and the function returns \<open>null\<close>.
\<close>

definition recover_body :: "nat \<Rightarrow> handle io" where
  "recover_body now =
     andThen (\<lambda>w. if existsSync TripsDb w then renameSync TripsDb (Corrupted now) w
                   else (Inr (), w)) (\<lambda>_.
     andThen (sqlite_open TripsDb) (\<lambda>freshDb.
     andThen (createTables freshDb) (\<lambda>_ w. (Inr freshDb, w))))"

definition recoverDatabase :: "nat \<Rightarrow> world \<Rightarrow> handle option \<times> world" where
  "recoverDatabase now w =
     (case recover_body now w of (Inl e, w') \<Rightarrow> (None, w') | (Inr h, w') \<Rightarrow> (Some h, w'))"

definition set_db :: "handle option \<Rightarrow> world \<Rightarrow> world" where
  "set_db h w = w\<lparr>db := h\<rparr>"

text \<open>
  The \<open>try\<close> block of \<open>getDatabase\<close>. Its value is the handle the singleton \<open>db\<close> holds
  when the block completes.
\<close>

definition init_body :: "nat \<Rightarrow> handle io" where
  "init_body now w0 =
     (let fileExistedBefore = existsSync TripsDb w0 in
      andThen (\<lambda>w. if \<not> data_dir w then mkdirSync w else (Inr (), w)) (\<lambda>_.
      andThen (sqlite_open TripsDb) (\<lambda>h.
      (\<lambda>w1.
        (case validateDatabase h fileExistedBefore (set_db (Some h) w1) of (v, w2) \<Rightarrow>
           if \<not> isHealthy v then
             andThen (db_close h) (\<lambda>_ w3.
               (case recoverDatabase now w3 of
                  (None, w4) \<Rightarrow> (Inl (js_error ''Database recovery failed''), set_db None w4)
                | (Some h', w4) \<Rightarrow> (Inr h', set_db (Some h') w4))) w2
           else andThen (createTables h) (\<lambda>_ w3. (Inr h, w3)) w2)))) w0)"

text \<open>
  \<open>getDatabase\<close>; \<open>now1\<close> and \<open>now2\<close> are the clock readings of the recovery in the \<open>try\<close>
  block and of the one in the \<open>catch\<close> block. The \<open>catch\<close> block closes the handle if the
  singleton holds one, ignoring a failure of the close, and recovers.
\<close>

definition getDatabase :: "nat \<Rightarrow> nat \<Rightarrow> handle io" where
  "getDatabase now1 now2 w =
     (case db w of
        Some h \<Rightarrow> (Inr h, w)
      | None \<Rightarrow>
         (case init_body now1 w of
            (Inr h, w1) \<Rightarrow> (Inr h, w1)
          | (Inl e, w1) \<Rightarrow>
              (let w2 = (case db w1 of Some h \<Rightarrow> snd (db_close h w1) | None \<Rightarrow> w1) in
               case recoverDatabase now2 w2 of
                 (None, w3) \<Rightarrow>
                   (Inl (js_error ''Database initialization and recovery both failed''),
                    set_db None w3)
               | (Some h, w3) \<Rightarrow> (Inr h, set_db (Some h) w3))))"

text \<open>The integrity check of a file fails: the engine rejects the file, or reports a problem.\<close>

definition integrity_check_fails :: "dbfile \<Rightarrow> bool" where
  "integrity_check_fails f = (\<not> is_database f \<or> integrity f \<noteq> Some (str ''ok''))"

subsection \<open>Sample worlds\<close>

text \<open>The file both \<open>CREATE TABLE IF NOT EXISTS\<close> statements leave behind on an empty database.\<close>

definition schema_file :: dbfile where
  "schema_file = empty_file\<lparr>tables := [str ''trips'', str ''settings'']\<rparr>"

text \<open>A first start: no data directory, no file, nothing injected.\<close>

definition first_start :: world where
  "first_start = \<lparr>files = (\<lambda>_. None), data_dir = False, db = None, faults = []\<rparr>"

text \<open>A start on a file that exists, passes the integrity check and has lost its tables.\<close>

definition tables_lost :: world where
  "tables_lost = \<lparr>files = (\<lambda>_. None)(TripsDb := Some empty_file), data_dir = True,
                   db = None, faults = []\<rparr>"

text \<open>A start on a file whose integrity check reports a problem.\<close>

definition damaged_file :: dbfile where
  "damaged_file = \<lparr>is_database = True,
                    integrity = Some (str ''*** in database main ***''),
                    tables = [str ''trips'', str ''settings'']\<rparr>"

definition damaged :: world where
  "damaged = \<lparr>files = (\<lambda>_. None)(TripsDb := Some damaged_file), data_dir = True,
               db = None, faults = []\<rparr>"

text \<open>
  The damaged file again, with a script that lets the open, the two probes and the close
  through and makes the rename of the first recovery fail.
\<close>

definition retry_world :: world where
  "retry_world = damaged\<lparr>faults := [None, None, None, None, Some (fs_error ''EPERM'')]\<rparr>"

text \<open>The same, with the rename of the second recovery failing as well.\<close>

definition doomed_world :: world where
  "doomed_world = damaged\<lparr>faults := [None, None, None, None, Some (fs_error ''EPERM''),
                                         Some (fs_error ''EPERM'')]\<rparr>"

section \<open>Numbers and trips\<close>

text \<open>
  A JavaScript number: not-a-number, an infinity, or a finite value. A finite number carries
  the value it denotes. The rounding of a long numeral to the nearest double by \<open>parseInt\<close>
  and \<open>parseFloat\<close> is not part of the model, and nothing proved about the parser depends on
  the digits of a finite value beyond comparing two such values; the arithmetic of \<open>getTrips\<close>
  does round.
\<close>

datatype number = NaN | NegInfinity | Num rat | PosInfinity

text \<open>\<open>a > b\<close> on numbers: false as soon as one side is not-a-number.\<close>

fun num_gt :: "number \<Rightarrow> number \<Rightarrow> bool" where
  "num_gt NaN b = False"
| "num_gt a NaN = False"
| "num_gt PosInfinity b = (b \<noteq> PosInfinity)"
| "num_gt NegInfinity b = False"
| "num_gt (Num x) NegInfinity = True"
| "num_gt (Num x) (Num y) = (y < x)"
| "num_gt (Num x) PosInfinity = False"

record Trip =
  category :: jsstring
  startDate :: jsstring
  odometerStart :: number
  startPosition :: jsstring
  endDate :: jsstring
  odometerEnd :: number
  endDestination :: jsstring
  duration :: jsstring
  distance :: number
  fuelConsumption :: jsstring
  title :: jsstring
  batteryConsumption :: jsstring
  batteryRegeneration :: jsstring
  notes' :: jsstring

section \<open>The open store\<close>

subsection \<open>The trips table and its statements\<close>

text \<open>
  The connection \<open>getDatabase\<close> hands out, as far as the trips table goes: the rows with their
  row identifiers, the \<open>AUTOINCREMENT\<close> counter, the state saved by \<open>BEGIN\<close> while a
  transaction is open, the environment's script of injected failures (one entry per
  statement, as for the startup calls), and the log of the statements issued.
\<close>

datatype stmt = Begin | Insert | Commit | Rollback

record store =
  trips :: "(nat \<times> Trip) list"
  seq :: nat
  snapshot :: "((nat \<times> Trip) list \<times> nat) option"
  script :: "thrown option list"
  journal :: "stmt list"

definition issue :: "stmt \<Rightarrow> store \<Rightarrow> thrown option \<times> store" where
  "issue c s =
     (case script s of
        [] \<Rightarrow> (None, s\<lparr>journal := journal s @ [c]\<rparr>)
      | f # fs \<Rightarrow> (f, s\<lparr>script := fs, journal := journal s @ [c]\<rparr>))"

definition exec_begin :: "store \<Rightarrow> (thrown + unit) \<times> store" where
  "exec_begin s =
     (case issue Begin s of
        (Some e, s') \<Rightarrow> (Inl e, s')
      | (None, s') \<Rightarrow>
          if snapshot s' \<noteq> None
          then (Inl (sqlite_error ''SQLITE_ERROR'' 1
                      ''cannot start a transaction within a transaction''), s')
          else (Inr (), s'\<lparr>snapshot := Some (trips s', seq s')\<rparr>))"

definition exec_commit :: "store \<Rightarrow> (thrown + unit) \<times> store" where
  "exec_commit s =
     (case issue Commit s of
        (Some e, s') \<Rightarrow> (Inl e, s')
      | (None, s') \<Rightarrow>
          if snapshot s' = None
          then (Inl (sqlite_error ''SQLITE_ERROR'' 1
                      ''cannot commit - no transaction is active''), s')
          else (Inr (), s'\<lparr>snapshot := None\<rparr>))"

definition exec_rollback :: "store \<Rightarrow> (thrown + unit) \<times> store" where
  "exec_rollback s =
     (case issue Rollback s of
        (Some e, s') \<Rightarrow> (Inl e, s')
      | (None, s') \<Rightarrow>
          (case snapshot s' of
             None \<Rightarrow> (Inl (sqlite_error ''SQLITE_ERROR'' 1
                             ''cannot rollback - no transaction is active''), s')
           | Some (rs, n) \<Rightarrow> (Inr (), s'\<lparr>trips := rs, seq := n, snapshot := None\<rparr>)))"

text \<open>
  The constraints of the table. Every column is \<open>NOT NULL\<close>; the driver binds a not-a-number
  as \<open>NULL\<close>, and the text columns always hold strings. The natural key is
  \<open>UNIQUE(startDate, odometerStart, odometerEnd)\<close>.
\<close>

definition natural_key :: "Trip \<Rightarrow> jsstring \<times> number \<times> number" where
  "natural_key t = (startDate t, odometerStart t, odometerEnd t)"

definition stored_keys :: "store \<Rightarrow> (jsstring \<times> number \<times> number) list" where
  "stored_keys s = map (\<lambda>r. natural_key (snd r)) (trips s)"

definition null_column :: "Trip \<Rightarrow> string option" where
  "null_column t =
     (if odometerStart t = NaN then Some ''odometerStart''
      else if odometerEnd t = NaN then Some ''odometerEnd''
      else if distance t = NaN then Some ''distance''
      else None)"

definition not_null_failed :: "string \<Rightarrow> thrown" where
  "not_null_failed c =
     sqlite_error ''SQLITE_CONSTRAINT'' 19 (''NOT NULL constraint failed: trips.'' @ c)"

definition unique_failed :: thrown where
  "unique_failed =
     sqlite_error ''SQLITE_CONSTRAINT'' 19
       ''UNIQUE constraint failed: trips.startDate, trips.odometerStart, trips.odometerEnd''"

definition next_rowid :: "store \<Rightarrow> nat" where
  "next_rowid s = Suc (fold max (map fst (trips s)) (seq s))"

definition run_insert :: "Trip \<Rightarrow> store \<Rightarrow> (thrown + nat) \<times> store" where
  "run_insert t s =
     (case issue Insert s of
        (Some e, s') \<Rightarrow> (Inl e, s')
      | (None, s') \<Rightarrow>
          (case null_column t of
             Some c \<Rightarrow> (Inl (not_null_failed c), s')
           | None \<Rightarrow>
               if natural_key t \<in> set (stored_keys s') then (Inl unique_failed, s')
               else (Inr (next_rowid s'),
                     s'\<lparr>trips := trips s' @ [(next_rowid s', t)], seq := next_rowid s'\<rparr>)))"

subsection \<open>isSQLiteCorruptionError and insertTrip\<close>

definition corruptionCodes :: "jsstring list" where
  "corruptionCodes = [str ''SQLITE_CORRUPT'', str ''SQLITE_NOTADB'', str ''SQLITE_CANTOPEN'']"

text \<open>\<open>message?.includes(p)\<close>: an absent message includes nothing.\<close>

definition message_includes :: "jsstring option \<Rightarrow> jsstring \<Rightarrow> bool" where
  "message_includes m p = (case m of None \<Rightarrow> False | Some s \<Rightarrow> js_includes s p)"

definition isSQLiteCorruptionError :: "thrown \<Rightarrow> bool" where
  "isSQLiteCorruptionError error =
     (case error of
        NotAnObject \<Rightarrow> False
      | ErrorObj c n m \<Rightarrow>
          list_ex (\<lambda>code.
              c = Some code
            \<or> message_includes m code
            \<or> message_includes m (str ''database disk image is malformed'')
            \<or> message_includes m (str ''file is not a database''))
            corruptionCodes)"

text \<open>The test of the second \<open>if\<close> of the \<open>catch\<close> block of \<open>insertTrip\<close>.\<close>

definition is_constraint_error :: "thrown \<Rightarrow> bool" where
  "is_constraint_error error =
     (case error of
        NotAnObject \<Rightarrow> False
      | ErrorObj c n m \<Rightarrow>
          c = Some (str ''SQLITE_CONSTRAINT_UNIQUE'') \<or> c = Some (str ''SQLITE_CONSTRAINT'')
          \<or> n = Some 19)"

text \<open>
  What \<open>insertTrip\<close> returns, \<open>number | false\<close>, and what it throws: the corruption error, or
  the caught value again.
\<close>

datatype insert_result = LastID nat | Duplicate

datatype insert_failure = DatabaseCorruptionError | Rethrown thrown

text \<open>The \<open>try\<close> block: \<open>BEGIN TRANSACTION\<close>, the \<open>INSERT\<close>, \<open>COMMIT\<close>.\<close>

definition insert_body :: "Trip \<Rightarrow> store \<Rightarrow> (thrown + nat) \<times> store" where
  "insert_body trip s =
     (case exec_begin s of
        (Inl e, s1) \<Rightarrow> (Inl e, s1)
      | (Inr _, s1) \<Rightarrow>
          (case run_insert trip s1 of
             (Inl e, s2) \<Rightarrow> (Inl e, s2)
           | (Inr lastID, s2) \<Rightarrow>
               (case exec_commit s2 of
                  (Inl e, s3) \<Rightarrow> (Inl e, s3)
                | (Inr _, s3) \<Rightarrow> (Inr lastID, s3))))"

text \<open>
  \<open>insertTrip\<close>. The \<open>catch\<close> block first rolls back, swallowing a failure of the rollback,
  then classifies the caught value.
\<close>

definition insertTrip :: "Trip \<Rightarrow> store \<Rightarrow> (insert_failure + insert_result) \<times> store" where
  "insertTrip trip s =
     (case insert_body trip s of
        (Inr lastID, s') \<Rightarrow> (Inr (LastID lastID), s')
      | (Inl error, s') \<Rightarrow>
          (let s'' = snd (exec_rollback s') in
           if isSQLiteCorruptionError error then (Inl DatabaseCorruptionError, s'')
           else if is_constraint_error error then (Inr Duplicate, s'')
           else (Inl (Rethrown error), s'')))"

subsection \<open>The import loop\<close>

record tally =
  imported :: nat
  duplicates :: nat
  errors :: nat

definition no_tally :: tally where
  "no_tally = \<lparr>imported = 0, duplicates = 0, errors = 0\<rparr>"

text \<open>
  The loop of the upload handler over the parsed trips: a returned identifier counts as
  imported, \<open>false\<close> as a duplicate, anything thrown as an error.
\<close>

fun import_loop :: "Trip list \<Rightarrow> tally \<Rightarrow> store \<Rightarrow> tally \<times> store" where
  "import_loop [] c s = (c, s)"
| "import_loop (trip # rest) c s =
     (case insertTrip trip s of
        (Inr (LastID i), s') \<Rightarrow> import_loop rest (c\<lparr>imported := imported c + 1\<rparr>) s'
      | (Inr Duplicate, s') \<Rightarrow> import_loop rest (c\<lparr>duplicates := duplicates c + 1\<rparr>) s'
      | (Inl e, s') \<Rightarrow> import_loop rest (c\<lparr>errors := errors c + 1\<rparr>) s')"

subsection \<open>Auxiliary predicates and sample stores\<close>

text \<open>
  A failed \<open>try\<close> block leaves the store \<open>s\<close> in a state from which the table of \<open>s0\<close> can
  be restored: either no transaction is open and the table is that of \<open>s0\<close>, or the open
  transaction has saved it.
\<close>

definition saved :: "store \<Rightarrow> store \<Rightarrow> bool" where
  "saved s0 s = ((snapshot s = None \<and> trips s = trips s0 \<and> seq s = seq s0)
      \<or> snapshot s = Some (trips s0, seq s0))"

definition sample_trip :: Trip where
  "sample_trip =
     \<lparr>category = str ''Privat'', startDate = str ''2024-01-01'', odometerStart = Num 100,
      startPosition = str ''A'', endDate = str ''2024-01-01'', odometerEnd = Num 150,
      endDestination = str ''B'', duration = str ''1h 0m'', distance = Num 50,
      fuelConsumption = str ''5 l'', title = str ''Trip'', batteryConsumption = str ''0 kWh'',
      batteryRegeneration = str ''0 kWh'', notes' = []\<rparr>"

definition empty_store :: store where
  "empty_store = \<lparr>trips = [], seq = 0, snapshot = None, script = [], journal = []\<rparr>"

definition malformed :: thrown where
  "malformed = sqlite_error ''SQLITE_CORRUPT'' 11 ''database disk image is malformed''"

text \<open>
  A store on which nothing is injected and no transaction is open, and a trip the table will
  not take: one with a \<open>NULL\<close> column, or one whose natural key is stored already.
\<close>

definition quiet :: "store \<Rightarrow> bool" where
  "quiet s = (script s = [] \<and> snapshot s = None)"

definition absorbed :: "store \<Rightarrow> Trip \<Rightarrow> bool" where
  "absorbed s t = (null_column t \<noteq> None \<or> natural_key t \<in> set (stored_keys s))"

subsection \<open>getTrips: the numbers of the query\<close>

text \<open>
  \<open>page\<close> and \<open>limit\<close> are numbers, and \<open>(page - 1) * limit\<close> is computed on doubles: the
  exact difference and the exact product are each rounded to the nearest double, ties to the
  even significand, and a result of magnitude \<open>2^1024\<close> or more is an infinity. A finite
  number \<open>Num r\<close> passed in is taken to be a double. \<open>two_power e\<close> is \<open>2^e\<close>,
  \<open>binary_exponent a\<close> the integer \<open>e\<close> with \<open>2^e \<le> a < 2^(e+1)\<close> for a positive \<open>a\<close>; the
  spacing of the doubles around \<open>a\<close> is \<open>2^(e-52)\<close>, and \<open>2^(-1074)\<close> below the normal range.
  The two zeros are one value here: they are bound to the same integer.
\<close>

definition two_power :: "int \<Rightarrow> rat" where
  "two_power e = (if 0 \<le> e then 2 ^ nat e else 1 / 2 ^ nat (- e))"

definition binary_exponent :: "rat \<Rightarrow> int" where
  "binary_exponent a = (if 1 \<le> a then bitlen \<lfloor>a\<rfloor> - 1 else - bitlen (\<lceil>1 / a\<rceil> - 1))"

definition round_half_even :: "rat \<Rightarrow> int" where
  "round_half_even x =
     (let n = \<lfloor>x\<rfloor>; r = x - of_int n
      in if r < 1 / 2 then n else if 1 / 2 < r then n + 1 else if even n then n else n + 1)"

definition to_double :: "rat \<Rightarrow> number" where
  "to_double r =
     (if r = 0 then Num 0
      else
        (let a = \<bar>r\<bar>;
             ulp = two_power (max (binary_exponent a - 52) (- 1074));
             v = of_int (round_half_even (a / ulp)) * ulp
         in if 2 ^ 1024 \<le> v then (if r < 0 then NegInfinity else PosInfinity)
            else Num (if r < 0 then - v else v)))"

fun num_sub :: "number \<Rightarrow> number \<Rightarrow> number" where
  "num_sub NaN b = NaN"
| "num_sub a NaN = NaN"
| "num_sub (Num x) (Num y) = to_double (x - y)"
| "num_sub (Num x) PosInfinity = NegInfinity"
| "num_sub (Num x) NegInfinity = PosInfinity"
| "num_sub a (Num y) = a"
| "num_sub a b = (if a = b then NaN else a)"

fun num_mul :: "number \<Rightarrow> number \<Rightarrow> number" where
  "num_mul NaN b = NaN"
| "num_mul a NaN = NaN"
| "num_mul (Num x) (Num y) = to_double (x * y)"
| "num_mul (Num x) b =
     (if x = 0 then NaN else if (0 < x) = (b = PosInfinity) then PosInfinity else NegInfinity)"
| "num_mul a (Num y) =
     (if y = 0 then NaN else if (0 < y) = (a = PosInfinity) then PosInfinity else NegInfinity)"
| "num_mul a b = (if a = b then PosInfinity else NegInfinity)"

subsection \<open>getTrips: dates\<close>

text \<open>
  The proleptic Gregorian calendar of \<open>Date\<close>. A day is a year, a month from 1 and a day
  of the month from 1; an instant is a day and the milliseconds since its midnight, read in
  UTC or in local time as the context says. \<open>plus_ms\<close> moves an instant by a number of
  milliseconds, carrying into the days.
\<close>

definition is_digit :: "nat \<Rightarrow> bool" where
  "is_digit c = (48 \<le> c \<and> c \<le> 57)"

definition decimal :: "jsstring \<Rightarrow> nat" where
  "decimal ds = foldl (\<lambda>n c. 10 * n + (c - 48)) 0 ds"

type_synonym day = "int \<times> nat \<times> nat"

type_synonym instant = "day \<times> int"

definition leap_year :: "int \<Rightarrow> bool" where
  "leap_year y = (y mod 4 = 0 \<and> (y mod 100 \<noteq> 0 \<or> y mod 400 = 0))"

definition days_in_month :: "int \<Rightarrow> nat \<Rightarrow> nat" where
  "days_in_month y m =
     (if m = 2 then (if leap_year y then 29 else 28)
      else if m \<in> {4, 6, 9, 11} then 30 else 31)"

definition valid_day :: "day \<Rightarrow> bool" where
  "valid_day ymd = (case ymd of (y, m, d) \<Rightarrow> 1 \<le> m \<and> m \<le> 12 \<and> 1 \<le> d \<and> d \<le> days_in_month y m)"

definition ms_per_day :: int where
  "ms_per_day = 86400000"

definition valid_instant :: "instant \<Rightarrow> bool" where
  "valid_instant t = (valid_day (fst t) \<and> 0 \<le> snd t \<and> snd t < ms_per_day)"

definition tomorrow :: "day \<Rightarrow> day" where
  "tomorrow ymd =
     (case ymd of (y, m, d) \<Rightarrow>
        if d < days_in_month y m then (y, m, d + 1)
        else if m < 12 then (y, m + 1, 1)
        else (y + 1, 1, 1))"

definition yesterday :: "day \<Rightarrow> day" where
  "yesterday ymd =
     (case ymd of (y, m, d) \<Rightarrow>
        if 1 < d then (y, m, d - 1)
        else if 1 < m then (y, m - 1, days_in_month y (m - 1))
        else (y - 1, 12, 31))"

definition plus_days :: "int \<Rightarrow> day \<Rightarrow> day" where
  "plus_days n ymd = (if 0 \<le> n then (tomorrow ^^ nat n) ymd else (yesterday ^^ nat (- n)) ymd)"

definition plus_ms :: "int \<Rightarrow> instant \<Rightarrow> instant" where
  "plus_ms k t =
     (let total = snd t + k
      in (plus_days (total div ms_per_day) (fst t), total mod ms_per_day))"

text \<open>
  The range of a \<open>Date\<close> is 100 000 000 days either side of 1 January 1970 UTC; \<open>TimeClip\<close>
  turns an instant outside it into an invalid date, \<open>None\<close> here.
\<close>

definition before :: "instant \<Rightarrow> instant \<Rightarrow> bool" where
  "before a b =
     (case (a, b) of (((y, m, d), t), ((y', m', d'), t')) \<Rightarrow>
        y < y' \<or> (y = y' \<and> (m < m' \<or> (m = m' \<and> (d < d' \<or> (d = d' \<and> t < t'))))))"

definition time_clip :: "instant \<Rightarrow> instant option" where
  "time_clip t =
     (if before t ((- 271821, 4, 20), 0) \<or> before ((275760, 9, 13), 0) t then None else Some t)"

text \<open>
  What the process and the JavaScript engine add to the program: the offset of local time
  from UTC in milliseconds, as a function of an instant given in UTC (\<open>tza_utc\<close>) and of an
  instant given in local time (\<open>tza_local\<close>), and what \<open>Date.parse\<close> makes of a string that is
  not in the date-time format of the language (\<open>other_forms\<close>, where \<open>None\<close> is not-a-number).
  The language leaves the last to the engine; V8 reads many such strings.
\<close>

record runtime =
  tza_utc :: "instant \<Rightarrow> int"
  tza_local :: "instant \<Rightarrow> int"
  other_forms :: "jsstring \<Rightarrow> instant option"

definition to_local :: "runtime \<Rightarrow> instant \<Rightarrow> instant" where
  "to_local rt t = plus_ms (tza_utc rt t) t"

definition to_utc :: "runtime \<Rightarrow> instant \<Rightarrow> instant" where
  "to_utc rt t = plus_ms (- tza_local rt t) t"

text \<open>
  The date-time string format: \<open>YYYY\<close>, \<open>YYYY-MM\<close> or \<open>YYYY-MM-DD\<close>, the year also as a sign
  and six digits other than \<open>-000000\<close>, then nothing or \<open>T\<close> and \<open>HH:mm\<close>, \<open>HH:mm:ss\<close> or
  \<open>HH:mm:ss.sss\<close>, then nothing, \<open>Z\<close> or an offset \<open>+HH:mm\<close> or \<open>-HH:mm\<close>. The month is 01 to
  12, the day one of that month, the hour 00 to 23 or 24 with nothing after midnight, minutes
  and seconds 00 to 59. \<open>iso_format\<close> gives the day, the milliseconds since its midnight and
  the zone; every other string, also one that V8 still takes as this format (a day 30 in
  February, a lower-case \<open>t\<close>), is left to \<open>other_forms\<close>.
\<close>

datatype zone = Offset int | Local

definition fixed_number :: "nat \<Rightarrow> jsstring \<Rightarrow> (nat \<times> jsstring) option" where
  "fixed_number w s =
     (if w \<le> length s \<and> list_all is_digit (take w s) then Some (decimal (take w s), drop w s)
      else None)"

definition skip :: "nat \<Rightarrow> jsstring \<Rightarrow> jsstring option" where
  "skip c s = (case s of [] \<Rightarrow> None | x # r \<Rightarrow> if x = c then Some r else None)"

definition iso_year :: "jsstring \<Rightarrow> (int \<times> jsstring) option" where
  "iso_year s =
     (case skip 43 s of
        Some r \<Rightarrow> map_option (\<lambda>(y, r'). (int y, r')) (fixed_number 6 r)
      | None \<Rightarrow>
          (case skip 45 s of
             Some r \<Rightarrow>
               (case fixed_number 6 r of
                  None \<Rightarrow> None
                | Some (y, r') \<Rightarrow> if y = 0 then None else Some (- int y, r'))
           | None \<Rightarrow> map_option (\<lambda>(y, r'). (int y, r')) (fixed_number 4 s)))"

definition iso_month_day :: "int \<Rightarrow> jsstring \<Rightarrow> ((nat \<times> nat) \<times> jsstring) option" where
  "iso_month_day y s =
     (case skip 45 s of
        None \<Rightarrow> Some ((1, 1), s)
      | Some r \<Rightarrow>
          (case fixed_number 2 r of
             None \<Rightarrow> None
           | Some (m, r1) \<Rightarrow>
               if m < 1 \<or> 12 < m then None
               else
                 (case skip 45 r1 of
                    None \<Rightarrow> Some ((m, 1), r1)
                  | Some r2 \<Rightarrow>
                      (case fixed_number 2 r2 of
                         None \<Rightarrow> None
                       | Some (d, r3) \<Rightarrow>
                           if 1 \<le> d \<and> d \<le> days_in_month y m then Some ((m, d), r3)
                           else None))))"

definition iso_seconds :: "jsstring \<Rightarrow> (int \<times> jsstring) option" where
  "iso_seconds s =
     (case skip 58 s of
        None \<Rightarrow> Some (0, s)
      | Some r \<Rightarrow>
          (case fixed_number 2 r of
             None \<Rightarrow> None
           | Some (sec, r1) \<Rightarrow>
               if 59 < sec then None
               else
                 (case skip 46 r1 of
                    None \<Rightarrow> Some (int sec * 1000, r1)
                  | Some r2 \<Rightarrow>
                      map_option (\<lambda>(ms, r3). (int sec * 1000 + int ms, r3))
                        (fixed_number 3 r2))))"

definition iso_zone :: "jsstring \<Rightarrow> zone option" where
  "iso_zone s =
     (if s = [] then Some Local
      else if s = [90] then Some (Offset 0)
      else
        (case (if hd s = 43 then Some 1 else if hd s = 45 then Some (- 1) else None) of
           None \<Rightarrow> None
         | Some sign \<Rightarrow>
             (case fixed_number 2 (tl s) of
                None \<Rightarrow> None
              | Some (h, r) \<Rightarrow>
                  (case skip 58 r of
                     None \<Rightarrow> None
                   | Some r1 \<Rightarrow>
                       (case fixed_number 2 r1 of
                          None \<Rightarrow> None
                        | Some (m, r2) \<Rightarrow>
                            if r2 = [] \<and> h \<le> 23 \<and> m \<le> 59
                            then Some (Offset (sign * (int h * 3600000 + int m * 60000)))
                            else None)))))"

definition iso_time :: "jsstring \<Rightarrow> (int \<times> zone) option" where
  "iso_time s =
     (case fixed_number 2 s of
        None \<Rightarrow> None
      | Some (h, r) \<Rightarrow>
          (case skip 58 r of
             None \<Rightarrow> None
           | Some r1 \<Rightarrow>
               (case fixed_number 2 r1 of
                  None \<Rightarrow> None
                | Some (m, r2) \<Rightarrow>
                    (case iso_seconds r2 of
                       None \<Rightarrow> None
                     | Some (ms, r3) \<Rightarrow>
                         (case iso_zone r3 of
                            None \<Rightarrow> None
                          | Some z \<Rightarrow>
                              if m \<le> 59 \<and> (h \<le> 23 \<or> (h = 24 \<and> m = 0 \<and> ms = 0))
                              then Some (int h * 3600000 + int m * 60000 + ms, z)
                              else None)))))"

definition iso_format :: "jsstring \<Rightarrow> (day \<times> int \<times> zone) option" where
  "iso_format s =
     (case iso_year s of
        None \<Rightarrow> None
      | Some (y, r) \<Rightarrow>
          (case iso_month_day y r of
             None \<Rightarrow> None
           | Some ((m, d), r1) \<Rightarrow>
               if r1 = [] then Some ((y, m, d), 0, Offset 0)
               else
                 (case skip 84 r1 of
                    None \<Rightarrow> None
                  | Some r2 \<Rightarrow> map_option (\<lambda>(ms, z). ((y, m, d), ms, z)) (iso_time r2))))"

text \<open>
  \<open>new Date(s)\<close>: a date-only form is UTC, a date-time form without an offset is local
  time, and an offset is subtracted. \<open>None\<close> is the invalid date.
\<close>

definition new_Date :: "runtime \<Rightarrow> jsstring \<Rightarrow> instant option" where
  "new_Date rt s =
     (case iso_format s of
        Some (ymd, ms, Offset off) \<Rightarrow> time_clip (plus_ms (ms - off) (ymd, 0))
      | Some (ymd, ms, Local) \<Rightarrow> time_clip (to_utc rt (plus_ms ms (ymd, 0)))
      | None \<Rightarrow>
          (case other_forms rt s of
             None \<Rightarrow> None
           | Some t \<Rightarrow> if valid_instant t then time_clip t else None))"

text \<open>
  \<open>getDate()\<close> is the day of the month in local time, not-a-number (\<open>None\<close>) on an invalid
  date. \<open>setDate(dt)\<close> keeps the local year, month and time of day and sets the day to the
  first of the month plus \<open>dt - 1\<close> days, then goes back to UTC and clips; on an invalid date
  or with not-a-number it gives the invalid date.
\<close>

definition getDate :: "runtime \<Rightarrow> instant option \<Rightarrow> nat option" where
  "getDate rt date =
     (case date of None \<Rightarrow> None | Some t \<Rightarrow> Some (snd (snd (fst (to_local rt t)))))"

definition setDate :: "runtime \<Rightarrow> int option \<Rightarrow> instant option \<Rightarrow> instant option" where
  "setDate rt dt date =
     (case date of
        None \<Rightarrow> None
      | Some t \<Rightarrow>
          (case dt of
             None \<Rightarrow> None
           | Some n \<Rightarrow>
               (case to_local rt t of
                  ((y, m, d), ms) \<Rightarrow> time_clip (to_utc rt (plus_days (n - 1) (y, m, 1), ms)))))"

text \<open>
  \<open>toISOString()\<close> prints the UTC fields, the year with four digits from 0 to 9999 and with a
  sign and six digits outside; on an invalid date it throws a \<open>RangeError\<close>.
\<close>

fun pad :: "nat \<Rightarrow> nat \<Rightarrow> jsstring" where
  "pad 0 n = []"
| "pad (Suc w) n = pad w (n div 10) @ [48 + n mod 10]"

definition iso_date :: "day \<Rightarrow> jsstring" where
  "iso_date ymd =
     (case ymd of (y, m, d) \<Rightarrow>
        (if 0 \<le> y \<and> y \<le> 9999 then pad 4 (nat y)
         else (if y < 0 then 45 else 43) # pad 6 (nat \<bar>y\<bar>))
        @ [45] @ pad 2 m @ [45] @ pad 2 d)"

definition toISOString :: "instant option \<Rightarrow> thrown + jsstring" where
  "toISOString date =
     (case date of
        None \<Rightarrow> Inl (js_error ''Invalid time value'')
      | Some (ymd, ms) \<Rightarrow>
          Inr (iso_date ymd @ [84] @ pad 2 (nat (ms div 3600000)) @ [58]
               @ pad 2 (nat (ms div 60000 mod 60)) @ [58] @ pad 2 (nat (ms div 1000 mod 60))
               @ [46] @ pad 3 (nat (ms mod 1000)) @ [90]))"

text \<open>
  The three lines of \<open>getTrips\<close> that compute the bound: \<open>new Date(dateTo)\<close>,
  \<open>setDate(getDate() + 1)\<close>, and \<open>toISOString().split('T')[0]\<close>, the text before the first
  \<open>T\<close>.
\<close>

definition nextDay :: "runtime \<Rightarrow> jsstring \<Rightarrow> thrown + jsstring" where
  "nextDay rt dateTo =
     (let date = new_Date rt dateTo;
          date' = setDate rt (map_option (\<lambda>d. int d + 1) (getDate rt date)) date
      in map_sum id (takeWhile (\<lambda>c. c \<noteq> 84)) (toISOString date'))"

subsection \<open>getTrips: the query\<close>

text \<open>
  \<open>conditions\<close> is the list the function builds, each entry with its parameter bound; it
  throws what \<open>toISOString\<close> throws. \<open>ORDER BY\<close> is modelled as a stable sort on the column,
  reversed for \<open>DESC\<close>; the order the engine gives to trips of equal start date is its own,
  and the properties below hold for any.
\<close>

datatype direction = ASC | DESC

definition conditions ::
  "runtime \<Rightarrow> jsstring \<Rightarrow> jsstring \<Rightarrow> jsstring \<Rightarrow> thrown + (Trip \<Rightarrow> bool) list" where
  "conditions rt category' dateFrom dateTo =
     (let c1 = (if category' \<noteq> [] then [\<lambda>t. category t = category'] else []);
          c2 = (if dateFrom \<noteq> [] then [\<lambda>t. dateFrom \<le> startDate t] else [])
      in if dateTo \<noteq> [] then
           (case nextDay rt dateTo of
              Inl e \<Rightarrow> Inl e
            | Inr n \<Rightarrow> Inr (c1 @ c2 @ [\<lambda>t. startDate t < n]))
         else Inr (c1 @ c2))"

definition sql_where :: "(Trip \<Rightarrow> bool) list \<Rightarrow> (nat \<times> Trip) list \<Rightarrow> (nat \<times> Trip) list" where
  "sql_where cs rows = filter (\<lambda>r. list_all (\<lambda>c. c (snd r)) cs) rows"

definition order_by_startDate :: "direction \<Rightarrow> (nat \<times> Trip) list \<Rightarrow> (nat \<times> Trip) list" where
  "order_by_startDate d rows =
     (case d of ASC \<Rightarrow> sort_key (\<lambda>r. startDate (snd r)) rows
              | DESC \<Rightarrow> rev (sort_key (\<lambda>r. startDate (snd r)) rows))"

text \<open>
  \<open>LIMIT ? OFFSET ?\<close>. The driver binds a number that is a 32-bit integer as \<open>INTEGER\<close>, any
  other as \<open>REAL\<close> and not-a-number as \<open>NULL\<close>; the engine takes as limit or offset an
  integer, or a \<open>REAL\<close> that is a whole number strictly between \<open>-2^63\<close> and \<open>2^63\<close>, and
  fails on anything else with \<open>SQLITE_MISMATCH\<close>. A negative limit is no limit, a negative
  offset is none.
\<close>

definition mismatch :: thrown where
  "mismatch = sqlite_error ''SQLITE_MISMATCH'' 20 ''datatype mismatch''"

definition must_be_int :: "number \<Rightarrow> thrown + int" where
  "must_be_int v =
     (case v of
        Num r \<Rightarrow>
          if of_int \<lfloor>r\<rfloor> = r \<and> - (2 ^ 63) < r \<and> r < 2 ^ 63 then Inr \<lfloor>r\<rfloor> else Inl mismatch
      | _ \<Rightarrow> Inl mismatch)"

definition limit_offset :: "number \<Rightarrow> number \<Rightarrow> 'a list \<Rightarrow> thrown + 'a list" where
  "limit_offset limit offset rows =
     (case must_be_int limit of
        Inl e \<Rightarrow> Inl e
      | Inr n \<Rightarrow>
          (case must_be_int offset of
             Inl e \<Rightarrow> Inl e
           | Inr k \<Rightarrow>
               Inr (let rest = drop (nat k) rows in if n < 0 then rest else take (nat n) rest)))"

text \<open>
  \<open>getTrips\<close> on an open store and a working engine, in the given runtime.
\<close>

definition getTrips ::
  "runtime \<Rightarrow> number \<Rightarrow> number \<Rightarrow> jsstring \<Rightarrow> jsstring \<Rightarrow> jsstring \<Rightarrow> jsstring \<Rightarrow> store
     \<Rightarrow> thrown + ((nat \<times> Trip) list \<times> nat)" where
  "getTrips rt page limit category' dateFrom dateTo sortOrder s =
     (let offset = num_mul (num_sub page (Num 1)) limit in
      case conditions rt category' dateFrom dateTo of
        Inl e \<Rightarrow> Inl e
      | Inr cs \<Rightarrow>
          (let orderDirection = (if sortOrder = str ''asc'' then ASC else DESC) in
           case limit_offset limit offset
                  (order_by_startDate orderDirection (sql_where cs (trips s))) of
             Inl e \<Rightarrow> Inl e
           | Inr rows \<Rightarrow> Inr (rows, length (sql_where cs (trips s)))))"

subsection \<open>Predicates of the specification of getTrips and samples\<close>

text \<open>
  The page is in ascending, or in descending, order of \<open>startDate\<close>.
\<close>

definition ascending :: "(nat \<times> Trip) list \<Rightarrow> bool" where
  "ascending rows = sorted_wrt (\<lambda>a b. startDate (snd a) \<le> startDate (snd b)) rows"

definition descending :: "(nat \<times> Trip) list \<Rightarrow> bool" where
  "descending rows = sorted_wrt (\<lambda>a b. startDate (snd b) \<le> startDate (snd a)) rows"

text \<open>
  A calendar date written \<open>YYYY-MM-DD\<close>, which is what the date input of the filter sends.
\<close>

definition calendar_date :: "jsstring \<Rightarrow> day option" where
  "calendar_date s =
     (if length s = 10 \<and> s ! 4 = 45 \<and> s ! 7 = 45
         \<and> list_all is_digit (take 4 s @ take 2 (drop 5 s) @ drop 8 s)
      then (let y = int (decimal (take 4 s)); m = decimal (take 2 (drop 5 s));
                d = decimal (drop 8 s)
            in if valid_day (y, m, d) then Some (y, m, d) else None)
      else None)"

text \<open>
  A trip passes the filter: its category is the one asked for, its start date is not before
  \<open>dateFrom\<close>, and its start date is before the day after \<open>dateTo\<close>, a calendar date; an
  empty filter field asks for nothing.
\<close>

definition passes :: "jsstring \<Rightarrow> jsstring \<Rightarrow> jsstring \<Rightarrow> Trip \<Rightarrow> bool" where
  "passes category' dateFrom dateTo t =
     ((category' = [] \<or> category t = category')
      \<and> (dateFrom = [] \<or> dateFrom \<le> startDate t)
      \<and> (dateTo = [] \<or>
           (case calendar_date dateTo of
              None \<Rightarrow> False
            | Some ymd \<Rightarrow> startDate t < iso_date (tomorrow ymd))))"

text \<open>
  The clocks are not put forward between midnight UTC of the day and the same local time one
  day later: the offset in force at the later time is not greater than the offset at the
  earlier one, and less than a day smaller.
\<close>

definition steady :: "runtime \<Rightarrow> day \<Rightarrow> bool" where
  "steady rt ymd =
     (let before_change = tza_utc rt (ymd, 0);
          t = to_local rt (ymd, 0);
          after_change = tza_local rt (tomorrow (fst t), snd t)
      in after_change \<le> before_change \<and> before_change < after_change + ms_per_day)"

text \<open>
  Two runtimes that read no string outside the format: one on UTC, and one on Central
  European Time around the start of summer time on 31 March 2024, an hour ahead of UTC before
  01:00 UTC of that day and two hours from then on; a local time before 03:00 of that day is
  read with the earlier offset.
\<close>

definition utc_runtime :: runtime where
  "utc_runtime = \<lparr>tza_utc = (\<lambda>t. 0), tza_local = (\<lambda>t. 0), other_forms = (\<lambda>s. None)\<rparr>"

definition stockholm :: runtime where
  "stockholm =
     \<lparr>tza_utc = (\<lambda>t. if before t ((2024, 3, 31), 3600000) then 3600000 else 7200000),
      tza_local = (\<lambda>t. if before t ((2024, 3, 31), 10800000) then 3600000 else 7200000),
      other_forms = (\<lambda>s. None)\<rparr>"

definition jan31_trip :: Trip where
  "jan31_trip = sample_trip\<lparr>startDate := str ''2024-01-31''\<rparr>"

definition mar31_trip :: Trip where
  "mar31_trip = sample_trip\<lparr>startDate := str ''2024-03-31''\<rparr>"

definition two_trips :: store where
  "two_trips = empty_store\<lparr>trips := [(1, jan31_trip), (2, sample_trip)], seq := 2\<rparr>"

definition march_trip :: store where
  "march_trip = empty_store\<lparr>trips := [(1, mar31_trip)], seq := 1\<rparr>"

section \<open>The record parser\<close>

subsection \<open>Strings\<close>

text \<open>
  The characters \<open>\s\<close> matches and \<open>trim\<close> removes: tab, line feed, vertical tab, form feed,
  carriage return, space, no-break space, the other space separators, the line and paragraph
  separators and the byte-order mark.
\<close>

definition is_ws :: "nat \<Rightarrow> bool" where
  "is_ws c = (c \<in> {9, 10, 11, 12, 13, 32, 160, 5760, 8232, 8233, 8239, 8287, 12288, 65279}
              \<or> (8192 \<le> c \<and> c \<le> 8202))"

definition trimStart :: "jsstring \<Rightarrow> jsstring" where
  "trimStart s = dropWhile is_ws s"

definition trim :: "jsstring \<Rightarrow> jsstring" where
  "trim s = rev (dropWhile is_ws (rev (dropWhile is_ws s)))"

text \<open>\<open>replace(/^\uFEFF/, '')\<close>, \<open>replace(/\s+/g, ' ')\<close> and \<open>replace(/\u0000/g, '')\<close>.\<close>

definition strip_bom :: "jsstring \<Rightarrow> jsstring" where
  "strip_bom s = (case s of [] \<Rightarrow> [] | c # cs \<Rightarrow> if c = 65279 then cs else s)"

fun collapse_ws :: "jsstring \<Rightarrow> jsstring" where
  "collapse_ws [] = []"
| "collapse_ws [c] = (if is_ws c then [32] else [c])"
| "collapse_ws (c # d # cs) =
     (if is_ws c then (if is_ws d then collapse_ws (d # cs) else 32 # collapse_ws (d # cs))
      else c # collapse_ws (d # cs))"

definition remove_nul :: "jsstring \<Rightarrow> jsstring" where
  "remove_nul s = filter (\<lambda>c. c \<noteq> 0) s"

definition cleanText :: "jsstring \<Rightarrow> jsstring" where
  "cleanText text' =
     (if text' = [] then [] else trim (remove_nul (collapse_ws (strip_bom text'))))"

text \<open>
  \<open>split(';')\<close> and \<open>split(/\r?\n/)\<close>: a line feed, with the carriage return before it if
  there is one, separates two lines.
\<close>

fun split_on :: "nat \<Rightarrow> jsstring \<Rightarrow> jsstring list" where
  "split_on sep [] = [[]]"
| "split_on sep (c # cs) =
     (if c = sep then [] # split_on sep cs
      else (case split_on sep cs of [] \<Rightarrow> [[c]] | v # vs \<Rightarrow> (c # v) # vs))"

fun split_lines :: "jsstring \<Rightarrow> jsstring list" where
  "split_lines [] = [[]]"
| "split_lines [c] = (if c = 10 then [[], []] else [[c]])"
| "split_lines (c # d # cs) =
     (if c = 10 then [] # split_lines (d # cs)
      else if c = 13 \<and> d = 10 then [] # split_lines cs
      else (case split_lines (d # cs) of [] \<Rightarrow> [[c]] | l # ls \<Rightarrow> (c # l) # ls))"

text \<open>\<open>replace(',', '.')\<close> with a string pattern replaces the first occurrence only.\<close>

definition replace_first :: "nat \<Rightarrow> nat \<Rightarrow> jsstring \<Rightarrow> jsstring" where
  "replace_first a b s =
     takeWhile (\<lambda>c. c \<noteq> a) s @ (case dropWhile (\<lambda>c. c \<noteq> a) s of [] \<Rightarrow> [] | c # cs \<Rightarrow> b # cs)"

subsection \<open>parseInt and parseFloat\<close>

text \<open>
  \<open>parseInt\<close> without a radix skips leading white space, reads a sign, takes \<open>0x\<close> or \<open>0X\<close> as
  the mark of a hexadecimal numeral, and reads the longest run of digits; no digit gives
  not-a-number. \<open>parseFloat\<close> reads the longest prefix that is a decimal literal: a sign,
  then \<open>Infinity\<close> or digits with an optional fraction and an optional exponent.
\<close>

definition sign_prefix :: "jsstring \<Rightarrow> bool \<times> jsstring" where
  "sign_prefix s =
     (case s of [] \<Rightarrow> (False, [])
      | c # cs \<Rightarrow> if c = 45 then (True, cs) else if c = 43 then (False, cs) else (False, s))"

definition hex_digit :: "nat \<Rightarrow> nat option" where
  "hex_digit c =
     (if 48 \<le> c \<and> c \<le> 57 then Some (c - 48)
      else if 97 \<le> c \<and> c \<le> 102 then Some (c - 87)
      else if 65 \<le> c \<and> c \<le> 70 then Some (c - 55)
      else None)"

definition hexadecimal :: "jsstring \<Rightarrow> nat" where
  "hexadecimal ds = foldl (\<lambda>n c. 16 * n + (case hex_digit c of None \<Rightarrow> 0 | Some v \<Rightarrow> v)) 0 ds"

definition signed :: "bool \<Rightarrow> rat \<Rightarrow> number" where
  "signed neg v = Num (if neg then - v else v)"

definition parseInt :: "jsstring \<Rightarrow> number" where
  "parseInt s =
     (case sign_prefix (trimStart s) of (neg, u) \<Rightarrow>
        if startsWith u (str ''0x'') \<or> startsWith u (str ''0X'') then
          (let z = takeWhile (\<lambda>c. hex_digit c \<noteq> None) (drop 2 u)
           in if z = [] then NaN else signed neg (of_nat (hexadecimal z)))
        else
          (let z = takeWhile is_digit u
           in if z = [] then NaN else signed neg (of_nat (decimal z))))"

definition exponent_part :: "jsstring \<Rightarrow> int" where
  "exponent_part s =
     (case s of [] \<Rightarrow> 0
      | c # cs \<Rightarrow>
          if c = 101 \<or> c = 69 then
            (case sign_prefix cs of (neg, u) \<Rightarrow>
               let z = takeWhile is_digit u
               in if z = [] then 0 else if neg then - int (decimal z) else int (decimal z))
          else 0)"

definition scale10 :: "rat \<Rightarrow> int \<Rightarrow> rat" where
  "scale10 v e = (if 0 \<le> e then v * 10 ^ nat e else v / 10 ^ nat (- e))"

definition parseFloat :: "jsstring \<Rightarrow> number" where
  "parseFloat s =
     (case sign_prefix (trimStart s) of (neg, u) \<Rightarrow>
        if startsWith u (str ''Infinity'') then (if neg then NegInfinity else PosInfinity)
        else
          (let ip = takeWhile is_digit u; r1 = dropWhile is_digit u;
               dot = (r1 \<noteq> [] \<and> hd r1 = 46);
               fp = (if dot then takeWhile is_digit (tl r1) else []);
               r2 = (if dot then dropWhile is_digit (tl r1) else r1)
           in if ip = [] \<and> fp = [] then NaN
              else signed neg
                     (scale10 (of_nat (decimal (ip @ fp))) (exponent_part r2 - int (length fp)))))"


subsection \<open>Rows\<close>

text \<open>\<open>v || d\<close> on strings: the empty string is falsy.\<close>

definition or_default :: "jsstring \<Rightarrow> jsstring \<Rightarrow> jsstring" where
  "or_default v d = (if v = [] then d else v)"

text \<open>
  The trip built from the fields of a row. The caller has checked that there are at least
  fourteen fields, so the fourteen reads are in range.
\<close>

definition decode_row :: "bool \<Rightarrow> jsstring list \<Rightarrow> Trip" where
  "decode_row mapOkategoriseratToPrivat values =
     (let category0 = cleanText (or_default (values ! 0) []);
          category1 = (if mapOkategoriseratToPrivat \<and> category0 = str ''Okategoriserat''
                       then str ''Privat'' else category0)
      in \<lparr>category = category1,
          startDate = cleanText (or_default (values ! 1) []),
          odometerStart = parseInt (cleanText (or_default (values ! 2) (str ''0''))),
          startPosition = cleanText (or_default (values ! 3) []),
          endDate = cleanText (or_default (values ! 4) []),
          odometerEnd = parseInt (cleanText (or_default (values ! 5) (str ''0''))),
          endDestination = cleanText (or_default (values ! 6) []),
          duration = cleanText (or_default (values ! 7) []),
          distance = parseFloat
                       (replace_first 44 46 (cleanText (or_default (values ! 8) (str ''0'')))),
          fuelConsumption = cleanText (or_default (values ! 9) []),
          title = cleanText (or_default (values ! 10) []),
          batteryConsumption = cleanText (or_default (values ! 11) []),
          batteryRegeneration = cleanText (or_default (values ! 12) []),
          notes' = cleanText (or_default (values ! 13) [])\<rparr>)"

text \<open>
  The local variables of \<open>parseCSVData\<close>: the accepted trips, the messages pushed to
  \<open>errors\<close> (which rule fired, on which row) and the counter \<open>skippedLines\<close>.
\<close>

datatype row_error = MissingRequired nat | InvalidOdometer nat | EmptyTrip nat

record parse_state =
  results :: "Trip list"
  row_errors :: "row_error list"
  skippedLines :: nat

definition parse_start :: parse_state where
  "parse_start = \<lparr>results = [], row_errors = [], skippedLines = 0\<rparr>"

definition reject :: "row_error \<Rightarrow> parse_state \<Rightarrow> parse_state" where
  "reject e st = st\<lparr>row_errors := row_errors st @ [e], skippedLines := skippedLines st + 1\<rparr>"

text \<open>The \<open>if\<close> chain that ends the \<open>try\<close> block of a row.\<close>

definition validate_row :: "nat \<Rightarrow> Trip \<Rightarrow> parse_state \<Rightarrow> parse_state" where
  "validate_row i trip st =
     (if category trip = [] \<or> startDate trip = [] then reject (MissingRequired i) st
      else if num_gt (odometerStart trip) (odometerEnd trip) \<and> num_gt (distance trip) (Num 0)
      then reject (InvalidOdometer i) st
      else if odometerStart trip = Num 0 \<and> odometerEnd trip = Num 0 \<and> distance trip = Num 0
      then reject (EmptyTrip i) st
      else st\<lparr>results := results st @ [trip]\<rparr>)"

text \<open>
  The body of both loops, on row \<open>i\<close>: a blank row is passed over, a row with fewer than
  fourteen fields falls through the \<open>if\<close> without an \<open>else\<close>. No call in the \<open>try\<close> block throws
  on a string, so the \<open>catch\<close> clause is never entered and has no counterpart here.
\<close>

definition row_step :: "bool \<Rightarrow> parse_state \<Rightarrow> nat \<times> jsstring \<Rightarrow> parse_state" where
  "row_step mapOkategoriseratToPrivat st ir =
     (case ir of (i, raw) \<Rightarrow>
        (let line = trim raw in
         if line = [] then st
         else (let values = split_on 59 line in
               if 14 \<le> length values
               then validate_row i (decode_row mapOkategoriseratToPrivat values) st
               else st)))"

subsection \<open>The two layouts\<close>

text \<open>
  The pattern \<open>(Privat|Arbete|Okategoriserat);\<close> matches at the head of a string;
  \<open>search\<close> returns the first position where it does, \<open>None\<close> standing for \<open>-1\<close>; and
  \<open>split\<close> on the look-ahead \<open>(?=(?:Privat|Arbete|Okategoriserat);)\<close> cuts before every
  position after the first character where the pattern matches.
\<close>

definition kw_at :: "jsstring \<Rightarrow> bool" where
  "kw_at s = (startsWith s (str ''Privat;'') \<or> startsWith s (str ''Arbete;'')
              \<or> startsWith s (str ''Okategoriserat;''))"

fun search_category :: "jsstring \<Rightarrow> nat option" where
  "search_category [] = None"
| "search_category (c # cs) =
     (if kw_at (c # cs) then Some 0 else map_option Suc (search_category cs))"

fun split_before :: "jsstring \<Rightarrow> jsstring list" where
  "split_before [] = [[]]"
| "split_before (c # cs) =
     (case split_before cs of
        [] \<Rightarrow> [[c]]
      | r # rs \<Rightarrow> if kw_at cs then [c] # r # rs else (c # r) # rs)"

text \<open>The cleaning of the whole content, and the function itself with its local state.\<close>

definition preclean :: "jsstring \<Rightarrow> jsstring" where
  "preclean csvContent = map (\<lambda>c. if c = 160 then 32 else c) (remove_nul (strip_bom csvContent))"

definition parse_run :: "jsstring \<Rightarrow> bool \<Rightarrow> parse_state" where
  "parse_run csvContent mapOkategoriseratToPrivat =
     (let cleanedContent = preclean csvContent;
          lines = split_lines cleanedContent
      in if 2 < length lines
         then foldl (row_step mapOkategoriseratToPrivat) parse_start (enumerate 1 (tl lines))
         else (case search_category cleanedContent of
                 None \<Rightarrow> parse_start
               | Some firstCategoryMatch \<Rightarrow>
                   foldl (row_step mapOkategoriseratToPrivat) parse_start
                     (enumerate 0 (split_before (drop firstCategoryMatch cleanedContent)))))"

text \<open>The promise resolves with \<open>results\<close> alone.\<close>

definition parseCSVData :: "jsstring \<Rightarrow> bool \<Rightarrow> Trip list" where
  "parseCSVData csvContent mapOkategoriseratToPrivat =
     results (parse_run csvContent mapOkategoriseratToPrivat)"

subsection \<open>Predicates of the specification and samples\<close>

text \<open>
  A list of pieces is cut before every occurrence of the pattern: no piece has an occurrence
  after its first character, and every piece but the first starts at one.
\<close>

fun well_cut :: "jsstring list \<Rightarrow> bool" where
  "well_cut [] = True"
| "well_cut (r # rs) =
     ((\<forall>j \<in> {1..<length r}. \<not> kw_at (drop j (concat (r # rs))))
      \<and> (rs = [] \<or> (r \<noteq> [] \<and> kw_at (concat rs)))
      \<and> well_cut rs)"

text \<open>Neither rejection rule applies to a trip.\<close>

definition accepted_by_rules :: "Trip \<Rightarrow> bool" where
  "accepted_by_rules t =
     (\<not> (num_gt (odometerStart t) (odometerEnd t) \<and> num_gt (distance t) (Num 0))
      \<and> \<not> (odometerStart t = Num 0 \<and> odometerEnd t = Num 0 \<and> distance t = Num 0))"

text \<open>
  A raw row is accepted: it has at least fourteen fields, its decoded category and start date
  are not empty, and neither rejection rule applies to the decoded trip.
\<close>

definition accepted_row :: "bool \<Rightarrow> jsstring \<Rightarrow> bool" where
  "accepted_row flag raw =
     (let values = split_on 59 (trim raw); trip = decode_row flag values
      in 14 \<le> length values \<and> category trip \<noteq> [] \<and> startDate trip \<noteq> []
         \<and> accepted_by_rules trip)"

text \<open>Sample rows and inputs.\<close>

definition sample_values :: "string \<Rightarrow> string \<Rightarrow> jsstring list" where
  "sample_values oe d =
     [str ''Privat'', str ''2024-01-01'', str ''100'', str ''A'', str ''2024-01-01'', str oe,
      str ''B'', str ''1h 0m'', str d, str ''5 l'', str ''Trip'', str ''0 kWh'', str ''0 kWh'', []]"

definition reversed_positive :: jsstring where
  "reversed_positive =
     str ''Privat;2024-01-01;100;A;2024-01-01;50;B;1h 0m;10.0;5 l;Trip;0 kWh;0 kWh;''"

definition reversed_zero :: jsstring where
  "reversed_zero =
     str ''Privat;2024-01-01;100;A;2024-01-01;50;B;1h 0m;0;5 l;Trip;0 kWh;0 kWh;''"

definition sample_row :: jsstring where
  "sample_row =
     str ''Privat;2024-01-01;100;A;2024-01-01;150;B;1h 0m;50.0;5 l;Trip;0 kWh;0 kWh;''"

definition short_input :: jsstring where
  "short_input = str ''Header'' @ [10] @ str ''Privat;2024-01-01;100'' @ [10]"

definition standard_sample :: jsstring where
  "standard_sample = str ''Header'' @ [10] @ sample_row @ [10] @ reversed_positive @ [10]"

definition legacy_sample :: jsstring where
  "legacy_sample = str ''Header stuff Privat;2024-01-01;100;A;2024-01-01;150;B;1h 0m;50.0;5 l;Trip;0 kWh;0 kWh;''"

section \<open>The encoding detector\<close>

subsection \<open>TextDecoder\<close>

text \<open>
  The platform's \<open>TextDecoder\<close>, after the Encoding Standard. A decoder reads bytes and emits
  code points or errors; \<open>decode\<close> throws a \<open>TypeError\<close> on the first error when the decoder
  is fatal and writes U+FFFD for it otherwise. The constructor throws a \<open>RangeError\<close> for a
  label it does not know. The labels the upload handler uses are \<open>utf-8\<close>, \<open>utf-16le\<close>,
  \<open>utf-16be\<close>, \<open>iso-8859-1\<close> and \<open>windows-1252\<close>; the standard maps the last two to the same
  encoding, windows-1252.
\<close>

type_synonym byte = "8 word"

datatype item = CP nat | Bad

text \<open>
  The UTF-8 decoder: between characters it is \<open>Idle\<close>; inside one it knows how many bytes it
  needs, the code point so far and the range the next byte must lie in. A byte out of range
  is an error and is read again as the first byte of a character.
\<close>

datatype utf8_state = Idle | Need nat nat nat nat

definition utf8_start :: "nat \<Rightarrow> item list \<times> utf8_state" where
  "utf8_start b =
     (if b \<le> 0x7F then ([CP b], Idle)
      else if 0xC2 \<le> b \<and> b \<le> 0xDF then ([], Need 1 (b mod 32) 0x80 0xBF)
      else if 0xE0 \<le> b \<and> b \<le> 0xEF then
        ([], Need 2 (b mod 16) (if b = 0xE0 then 0xA0 else 0x80) (if b = 0xED then 0x9F else 0xBF))
      else if 0xF0 \<le> b \<and> b \<le> 0xF4 then
        ([], Need 3 (b mod 8) (if b = 0xF0 then 0x90 else 0x80) (if b = 0xF4 then 0x8F else 0xBF))
      else ([Bad], Idle))"

fun utf8_step :: "utf8_state \<Rightarrow> nat \<Rightarrow> item list \<times> utf8_state" where
  "utf8_step Idle b = utf8_start b"
| "utf8_step (Need n cp lo hi) b =
     (if lo \<le> b \<and> b \<le> hi then
        (if n = 1 then ([CP (cp * 64 + b mod 64)], Idle)
         else ([], Need (n - 1) (cp * 64 + b mod 64) 0x80 0xBF))
      else (case utf8_start b of (out, st) \<Rightarrow> (Bad # out, st)))"

fun utf8_run :: "utf8_state \<Rightarrow> nat list \<Rightarrow> item list" where
  "utf8_run st [] = (case st of Idle \<Rightarrow> [] | Need n cp lo hi \<Rightarrow> [Bad])"
| "utf8_run st (b # bs) = (case utf8_step st b of (out, st') \<Rightarrow> out @ utf8_run st' bs)"

text \<open>
  The UTF-16 decoder, for both byte orders: it pairs bytes into code units and surrogates into
  code points; a surrogate without its partner is an error, and so is a byte or a lead
  surrogate left over at the end.
\<close>

definition utf16_unit :: "nat \<Rightarrow> item list \<times> nat option" where
  "utf16_unit cu =
     (if 0xD800 \<le> cu \<and> cu \<le> 0xDBFF then ([], Some cu)
      else if 0xDC00 \<le> cu \<and> cu \<le> 0xDFFF then ([Bad], None)
      else ([CP cu], None))"

fun utf16_run :: "bool \<Rightarrow> nat option \<Rightarrow> nat option \<Rightarrow> nat list \<Rightarrow> item list" where
  "utf16_run be lead_byte lead_surrogate [] =
     (if lead_byte \<noteq> None \<or> lead_surrogate \<noteq> None then [Bad] else [])"
| "utf16_run be None lead_surrogate (b # bs) = utf16_run be (Some b) lead_surrogate bs"
| "utf16_run be (Some l) None (b # bs) =
     (case utf16_unit (if be then l * 256 + b else b * 256 + l) of
        (out, ls) \<Rightarrow> out @ utf16_run be None ls bs)"
| "utf16_run be (Some l) (Some s) (b # bs) =
     (let cu = (if be then l * 256 + b else b * 256 + l) in
      if 0xDC00 \<le> cu \<and> cu \<le> 0xDFFF
      then CP (0x10000 + (s - 0xD800) * 1024 + (cu - 0xDC00)) # utf16_run be None None bs
      else (case utf16_unit cu of (out, ls) \<Rightarrow> Bad # out @ utf16_run be None ls bs))"

text \<open>The windows-1252 decoder: the index of the standard for the bytes 80 to 9F.\<close>

definition windows1252_high :: "nat list" where
  "windows1252_high =
     [0x20AC, 0x81, 0x201A, 0x192, 0x201E, 0x2026, 0x2020, 0x2021,
      0x2C6, 0x2030, 0x160, 0x2039, 0x152, 0x8D, 0x17D, 0x8F,
      0x90, 0x2018, 0x2019, 0x201C, 0x201D, 0x2022, 0x2013, 0x2014,
      0x2DC, 0x2122, 0x161, 0x203A, 0x153, 0x9D, 0x17E, 0x178]"

definition windows1252 :: "nat \<Rightarrow> nat" where
  "windows1252 b = (if 0x80 \<le> b \<and> b \<le> 0x9F then windows1252_high ! (b - 0x80) else b)"

datatype encoding = UTF8 | UTF16LE | UTF16BE | Windows1252

definition get_encoding :: "string \<Rightarrow> encoding option" where
  "get_encoding label =
     (if label = ''utf-8'' then Some UTF8
      else if label = ''utf-16le'' then Some UTF16LE
      else if label = ''utf-16be'' then Some UTF16BE
      else if label = ''iso-8859-1'' \<or> label = ''windows-1252'' then Some Windows1252
      else None)"

definition run_decoder :: "encoding \<Rightarrow> nat list \<Rightarrow> item list" where
  "run_decoder enc bs =
     (case enc of
        UTF8 \<Rightarrow> utf8_run Idle bs
      | UTF16LE \<Rightarrow> utf16_run False None None bs
      | UTF16BE \<Rightarrow> utf16_run True None None bs
      | Windows1252 \<Rightarrow> map (\<lambda>b. CP (windows1252 b)) bs)"

text \<open>
  \<open>decode\<close> with the default \<open>ignoreBOM: false\<close> drops a byte-order mark at the head of what a
  UTF-8 or UTF-16 decoder emits.
\<close>

definition drop_mark :: "encoding \<Rightarrow> jsstring \<Rightarrow> jsstring" where
  "drop_mark enc s = (if enc \<noteq> Windows1252 then strip_bom s else s)"

definition TextDecoder_decode :: "string \<Rightarrow> bool \<Rightarrow> byte list \<Rightarrow> thrown + jsstring" where
  "TextDecoder_decode label fatal input =
     (case get_encoding label of
        None \<Rightarrow> Inl (js_error ''RangeError'')
      | Some enc \<Rightarrow>
          (let items = run_decoder enc (map unat input) in
           if fatal \<and> Bad \<in> set items then Inl (js_error ''TypeError'')
           else Inr (drop_mark enc (map (\<lambda>i. case i of CP c \<Rightarrow> c | Bad \<Rightarrow> 0xFFFD) items))))"

subsection \<open>The chain of the upload handler\<close>

text \<open>
  The branch on the first bytes of the upload; a read past the end of the array is
  \<open>undefined\<close> and equals no byte. Each \<open>catch\<close> without a binding swallows what was thrown.
\<close>

definition decodeUpload :: "byte list \<Rightarrow> thrown + jsstring" where
  "decodeUpload uint8Array =
     (if take 2 uint8Array = [0xFF, 0xFE]
      then TextDecoder_decode ''utf-16le'' False (drop 2 uint8Array)
      else if take 2 uint8Array = [0xFE, 0xFF]
      then TextDecoder_decode ''utf-16be'' False (drop 2 uint8Array)
      else if take 3 uint8Array = [0xEF, 0xBB, 0xBF]
      then TextDecoder_decode ''utf-8'' False (drop 3 uint8Array)
      else (case TextDecoder_decode ''utf-8'' True uint8Array of
              Inr csvContent \<Rightarrow> Inr csvContent
            | Inl e1 \<Rightarrow>
                (case TextDecoder_decode ''iso-8859-1'' False uint8Array of
                   Inr csvContent \<Rightarrow> Inr csvContent
                 | Inl e2 \<Rightarrow> TextDecoder_decode ''windows-1252'' False uint8Array)))"

section \<open>Properties of the startup sequence\<close>

lemmas io_defs = andThen_def fallible_def take_fault_def with_file_def

lemmas probe_defs = db_select_1_def db_integrity_check_def db_required_tables_def

lemma validateDatabase_no_faults:
  assumes "files w p = Some f" "is_database f" "faults w = []"
  shows "validateDatabase (Handle p) existed w =
      (if integrity f \<noteq> Some (str ''ok'') then corrupt
       else if length (required_tables f) < 2 then (if existed then corrupt else healthy_fresh)
       else healthy_existing, w)"
  using assms by (simp add: validateDatabase_def validate_body_def io_defs probe_defs)

lemma validateDatabase_integrity:
  assumes "files w p = Some f" "integrity f \<noteq> Some (str ''ok'')"
  shows "fst (validateDatabase (Handle p) existed w) = corrupt"
  using assms
  by (auto simp add: validateDatabase_def validate_body_def io_defs probe_defs
      split: list.splits option.splits sum.splits prod.splits if_splits)

lemma getDatabase_first_start:
  assumes "db w = None" "files w TripsDb = None" "faults w = []"
  shows "getDatabase now1 now2 w =
     (Inr (Handle TripsDb),
      w\<lparr>files := (files w)(TripsDb := Some schema_file), data_dir := True,
        db := Some (Handle TripsDb)\<rparr>)"
proof -
  have "init_body now1 w =
     (Inr (Handle TripsDb), w\<lparr>files := (files w)(TripsDb := Some schema_file), data_dir := True,
        db := Some (Handle TripsDb)\<rparr>)"
    using assms
    by (simp add: init_body_def existsSync_def mkdirSync_def sqlite_open_def set_db_def
        validateDatabase_def validate_body_def io_defs probe_defs required_tables_def
        empty_file_def healthy_fresh_def createTables_def db_create_table_def
        schema_file_def str_def)
  then show ?thesis using assms by (simp add: getDatabase_def)
qed

subsection \<open>Recovery\<close>

lemma validateDatabase_fails_script:
  assumes "files w p = Some f" "integrity_check_fails f" "faults w = None # None # fs"
  shows "validateDatabase (Handle p) existed w = (corrupt, w\<lparr>faults := fs\<rparr>)"
  using assms
  by (auto simp add: validateDatabase_def validate_body_def io_defs probe_defs
      integrity_check_fails_def
      split: list.splits option.splits sum.splits prod.splits if_splits)

lemma validateDatabase_fails_quiet:
  assumes "files w p = Some f" "integrity_check_fails f" "faults w = []"
  shows "validateDatabase (Handle p) existed w = (corrupt, w)"
  using assms
  by (auto simp add: validateDatabase_def validate_body_def io_defs probe_defs
      integrity_check_fails_def
      split: list.splits option.splits sum.splits prod.splits if_splits)

lemma recoverDatabase_quiet:
  assumes "files w TripsDb = Some f" "faults w = []" "data_dir w"
  shows "recoverDatabase now w = (Some (Handle TripsDb),
      w\<lparr>files := (files w)(Corrupted now := Some f, TripsDb := Some schema_file)\<rparr>)"
  using assms
  by (simp add: recoverDatabase_def recover_body_def existsSync_def renameSync_def
      sqlite_open_def createTables_def db_create_table_def io_defs schema_file_def
      empty_file_def str_def fun_upd_twist)

lemma init_body_corrupt:
  assumes "db w = None" "files w TripsDb = Some f" "integrity_check_fails f" "data_dir w"
    "faults w = None # None # None # None # fs"
  shows "init_body now w =
     (case recoverDatabase now (w\<lparr>db := Some (Handle TripsDb), faults := fs\<rparr>) of
        (None, w') \<Rightarrow> (Inl (js_error ''Database recovery failed''), set_db None w')
      | (Some h, w') \<Rightarrow> (Inr h, set_db (Some h) w'))"
proof -
  let ?w1 = "w\<lparr>faults := None # None # None # fs\<rparr>"
  have opened: "sqlite_open TripsDb w = (Inr (Handle TripsDb), ?w1)"
    using assms by (simp add: sqlite_open_def io_defs)
  have verdict: "validateDatabase (Handle TripsDb) True (set_db (Some (Handle TripsDb)) ?w1)
      = (corrupt, w\<lparr>db := Some (Handle TripsDb), faults := None # fs\<rparr>)"
    using validateDatabase_fails_script
      [of "set_db (Some (Handle TripsDb)) ?w1" TripsDb f "None # fs" True] assms
    by (simp add: set_db_def)
  show ?thesis
    using assms opened verdict
    by (simp add: init_body_def existsSync_def andThen_def corrupt_def db_close_def
        fallible_def take_fault_def split: prod.splits)
qed

lemma getDatabase_two_attempts:
  assumes "db w = None" "files w TripsDb = Some f" "integrity_check_fails f" "data_dir w"
    "faults w = None # None # None # None # fs"
  shows "getDatabase now1 now2 w =
     (case recoverDatabase now1 (w\<lparr>db := Some (Handle TripsDb), faults := fs\<rparr>) of
        (Some h, w1) \<Rightarrow> (Inr h, set_db (Some h) w1)
      | (None, w1) \<Rightarrow>
          (case recoverDatabase now2 (set_db None w1) of
             (Some h, w2) \<Rightarrow> (Inr h, set_db (Some h) w2)
           | (None, w2) \<Rightarrow>
               (Inl (js_error ''Database initialization and recovery both failed''),
                set_db None w2)))"
  using assms init_body_corrupt [OF assms, of now1]
  by (auto simp add: getDatabase_def set_db_def split: prod.splits option.splits)

lemma getDatabase_recovers_verdict:
  assumes "db w = None" "files w TripsDb = Some f" "data_dir w" "faults w = []"
    "validateDatabase (Handle TripsDb) True (w\<lparr>db := Some (Handle TripsDb)\<rparr>) =
       (corrupt, w\<lparr>db := Some (Handle TripsDb)\<rparr>)"
  shows "getDatabase now1 now2 w =
     (Inr (Handle TripsDb),
      w\<lparr>files := (files w)(Corrupted now1 := Some f, TripsDb := Some schema_file),
        db := Some (Handle TripsDb)\<rparr>)"
proof -
  let ?w1 = "w\<lparr>db := Some (Handle TripsDb)\<rparr>"
  have opened: "sqlite_open TripsDb w = (Inr (Handle TripsDb), w)"
    using assms by (simp add: sqlite_open_def io_defs)
  have recovered: "recoverDatabase now1 ?w1 = (Some (Handle TripsDb),
      ?w1\<lparr>files := (files w)(Corrupted now1 := Some f, TripsDb := Some schema_file)\<rparr>)"
    using recoverDatabase_quiet [of ?w1 f now1] assms by simp
  have "init_body now1 w = (Inr (Handle TripsDb),
      w\<lparr>files := (files w)(Corrupted now1 := Some f, TripsDb := Some schema_file),
        db := Some (Handle TripsDb)\<rparr>)"
    using assms opened recovered
    by (simp add: init_body_def existsSync_def andThen_def corrupt_def db_close_def
        fallible_def take_fault_def set_db_def)
  then show ?thesis using assms by (simp add: getDatabase_def)
qed

lemma getDatabase_recovers:
  assumes "db w = None" "files w TripsDb = Some f" "integrity_check_fails f" "data_dir w"
    "faults w = []"
  shows "getDatabase now1 now2 w =
     (Inr (Handle TripsDb),
      w\<lparr>files := (files w)(Corrupted now1 := Some f, TripsDb := Some schema_file),
        db := Some (Handle TripsDb)\<rparr>)"
proof -
  have "validateDatabase (Handle TripsDb) True (w\<lparr>db := Some (Handle TripsDb)\<rparr>) =
       (corrupt, w\<lparr>db := Some (Handle TripsDb)\<rparr>)"
    using validateDatabase_fails_quiet [of "w\<lparr>db := Some (Handle TripsDb)\<rparr>" TripsDb f True]
      assms by simp
  then show ?thesis using getDatabase_recovers_verdict [of w f] assms by simp
qed

lemma getDatabase_tables_lost:
  assumes "db w = None" "files w TripsDb = Some f" "is_database f"
    "integrity f = Some (str ''ok'')" "length (required_tables f) < 2" "data_dir w"
    "faults w = []"
  shows "getDatabase now1 now2 w =
     (Inr (Handle TripsDb),
      w\<lparr>files := (files w)(Corrupted now1 := Some f, TripsDb := Some schema_file),
        db := Some (Handle TripsDb)\<rparr>)"
proof -
  have "validateDatabase (Handle TripsDb) True (w\<lparr>db := Some (Handle TripsDb)\<rparr>) =
       (corrupt, w\<lparr>db := Some (Handle TripsDb)\<rparr>)"
    using validateDatabase_no_faults [of "w\<lparr>db := Some (Handle TripsDb)\<rparr>" TripsDb f True]
      assms by simp
  then show ?thesis using getDatabase_recovers_verdict [of w f] assms by simp
qed

lemmas startup_defs = getDatabase_def init_body_def existsSync_def sqlite_open_def
  validateDatabase_def validate_body_def io_defs probe_defs set_db_def db_close_def
  recoverDatabase_def recover_body_def renameSync_def createTables_def db_create_table_def
  corrupt_def schema_file_def empty_file_def damaged_def damaged_file_def

text \<open>
  C4. Startup health classification. A file whose integrity check passes but whose required
  tables are missing is classified corrupt exactly when the file existed before it was opened,
  and healthy-fresh exactly when it did not; an integrity check result other than \<open>ok\<close> is
  classified corrupt whatever else happens. In \<open>getDatabase\<close>, where nothing fails: on a
  start without a file the tables are created in the new file and nothing is renamed, no
  backup appears; on a start with a file that has lost a table the file goes through the
  recovery.
\<close>

theorem health_classification:
  "(files w p = Some f \<and> is_database f \<and> faults w = [] \<and> integrity f = Some (str ''ok'')
      \<and> length (required_tables f) < 2 \<longrightarrow>
      (fst (validateDatabase (Handle p) existed w) = corrupt \<longleftrightarrow> existed) \<and>
      (fst (validateDatabase (Handle p) existed w) = healthy_fresh \<longleftrightarrow> \<not> existed))
   \<and> (files w p = Some f \<and> integrity f \<noteq> Some (str ''ok'') \<longrightarrow>
      fst (validateDatabase (Handle p) existed w) = corrupt)
   \<and> (db w = None \<and> files w TripsDb = None \<and> faults w = [] \<longrightarrow>
      getDatabase now1 now2 w =
        (Inr (Handle TripsDb),
         w\<lparr>files := (files w)(TripsDb := Some schema_file), data_dir := True,
           db := Some (Handle TripsDb)\<rparr>))
   \<and> (db w = None \<and> files w TripsDb = Some g \<and> is_database g
        \<and> integrity g = Some (str ''ok'') \<and> length (required_tables g) < 2
        \<and> data_dir w \<and> faults w = [] \<longrightarrow>
      getDatabase now1 now2 w =
        (Inr (Handle TripsDb),
         w\<lparr>files := (files w)(Corrupted now1 := Some g, TripsDb := Some schema_file),
           db := Some (Handle TripsDb)\<rparr>))"
  using validateDatabase_no_faults [of w p f existed] validateDatabase_integrity [of w p f existed]
    getDatabase_first_start [of w now1 now2] getDatabase_tables_lost [of w g now1 now2]
  by (auto simp add: corrupt_def healthy_fresh_def)

theorem health_classification_witness:
  "fst (validateDatabase (Handle TripsDb) True tables_lost) = corrupt
   \<and> fst (validateDatabase (Handle TripsDb) False tables_lost) = healthy_fresh
   \<and> fst (validateDatabase (Handle TripsDb) False damaged) = corrupt
   \<and> fst (getDatabase 1 2 first_start) = Inr (Handle TripsDb)
   \<and> files (snd (getDatabase 1 2 first_start)) = (\<lambda>_. None)(TripsDb := Some schema_file)
   \<and> files (snd (getDatabase 1 2 tables_lost)) =
       (\<lambda>_. None)(Corrupted 1 := Some empty_file, TripsDb := Some schema_file)"
  using health_classification [where w = tables_lost and p = TripsDb and f = empty_file
      and existed = True and g = empty_file and ?now1.0 = 1 and ?now2.0 = 2]
    health_classification [where w = tables_lost and p = TripsDb and f = empty_file
      and existed = False and g = empty_file and ?now1.0 = 1 and ?now2.0 = 2]
    health_classification [where w = damaged and p = TripsDb and f = damaged_file
      and existed = False and ?now1.0 = 1 and ?now2.0 = 2]
    health_classification [where w = first_start and p = TripsDb and f = empty_file
      and existed = False and ?now1.0 = 1 and ?now2.0 = 2]
  by (simp add: tables_lost_def damaged_def first_start_def empty_file_def damaged_file_def
      required_tables_def str_def)

text \<open>
  C3, as the claim states it, fails in its last part: a recovery that fails is not fatal.
  On the damaged file, with the rename of the first recovery failing, \<open>recoverDatabase\<close>
  returns \<open>null\<close>, the error raised for it is caught by the \<open>catch\<close> block of \<open>getDatabase\<close>,
  the recovery runs a second time, and initialization returns a handle.
\<close>

theorem recovery_failure_not_fatal:
  "fst (recoverDatabase 1 (retry_world\<lparr>db := Some (Handle TripsDb),
                                       faults := [Some (fs_error ''EPERM'')]\<rparr>)) = None
   \<and> fst (getDatabase 1 2 retry_world) = Inr (Handle TripsDb)
   \<and> files (snd (getDatabase 1 2 retry_world)) =
       (\<lambda>_. None)(Corrupted 2 := Some damaged_file, TripsDb := Some schema_file)"
  by (simp add: startup_defs retry_world_def str_def fun_upd_twist)

text \<open>
  C3, amended. When the store is opened on an existing file whose integrity check fails and
  nothing else fails, initialization moves the file, content unchanged, to the backup path
  stamped with the clock reading, leaves every other file as it was, creates a new file with
  both tables at the original path and returns its handle. When the open, the probes and the
  close succeed, whatever happens later, initialization returns the handle of the first
  recovery if that succeeds, otherwise runs the recovery a second time and returns its handle
  if that succeeds, and fails fatally exactly when both recoveries fail.
\<close>

theorem startup_recovery:
  "(db w = None \<and> files w TripsDb = Some f \<and> integrity_check_fails f \<and> data_dir w
      \<and> faults w = [] \<longrightarrow>
      getDatabase now1 now2 w =
        (Inr (Handle TripsDb),
         w\<lparr>files := (files w)(Corrupted now1 := Some f, TripsDb := Some schema_file),
           db := Some (Handle TripsDb)\<rparr>))
   \<and> (db w = None \<and> files w TripsDb = Some f \<and> integrity_check_fails f \<and> data_dir w
      \<and> faults w = None # None # None # None # fs \<longrightarrow>
      getDatabase now1 now2 w =
        (case recoverDatabase now1 (w\<lparr>db := Some (Handle TripsDb), faults := fs\<rparr>) of
           (Some h, w1) \<Rightarrow> (Inr h, set_db (Some h) w1)
         | (None, w1) \<Rightarrow>
             (case recoverDatabase now2 (set_db None w1) of
                (Some h, w2) \<Rightarrow> (Inr h, set_db (Some h) w2)
              | (None, w2) \<Rightarrow>
                  (Inl (js_error ''Database initialization and recovery both failed''),
                   set_db None w2))))"
  using getDatabase_recovers [of w f now1 now2] getDatabase_two_attempts [of w f fs now1 now2]
  by blast

theorem startup_recovery_witness:
  "getDatabase 1 2 damaged =
     (Inr (Handle TripsDb),
      damaged\<lparr>files := (\<lambda>_. None)(Corrupted 1 := Some damaged_file, TripsDb := Some schema_file),
        db := Some (Handle TripsDb)\<rparr>)
   \<and> fst (getDatabase 1 2 doomed_world) =
       Inl (js_error ''Database initialization and recovery both failed'')
   \<and> files (snd (getDatabase 1 2 doomed_world)) = (\<lambda>_. None)(TripsDb := Some damaged_file)"
  using startup_recovery [of damaged damaged_file 1 2 "[]"]
    startup_recovery [of doomed_world damaged_file 1 2
      "[Some (fs_error ''EPERM''), Some (fs_error ''EPERM'')]"]
  by (simp add: doomed_world_def damaged_def damaged_file_def integrity_check_fails_def
      recoverDatabase_def recover_body_def existsSync_def renameSync_def io_defs set_db_def
      str_def fun_upd_twist)

section \<open>Properties of the open store\<close>

subsection \<open>insertTrip\<close>

lemma unique_failed_class:
  "\<not> isSQLiteCorruptionError unique_failed \<and> is_constraint_error unique_failed"
  by (simp add: unique_failed_def sqlite_error_def isSQLiteCorruptionError_def
      is_constraint_error_def corruptionCodes_def message_includes_def startsWith_def str_def)

lemma not_null_failed_class:
  "c \<in> {''odometerStart'', ''odometerEnd'', ''distance''} \<Longrightarrow>
     \<not> isSQLiteCorruptionError (not_null_failed c) \<and> is_constraint_error (not_null_failed c)"
  by (auto simp add: not_null_failed_def sqlite_error_def isSQLiteCorruptionError_def
      is_constraint_error_def corruptionCodes_def message_includes_def startsWith_def str_def)

lemma null_column_cases:
  "null_column t = Some c \<Longrightarrow> c \<in> {''odometerStart'', ''odometerEnd'', ''distance''}"
  by (auto simp add: null_column_def split: if_splits)

lemmas stmt_defs = issue_def exec_begin_def exec_commit_def exec_rollback_def run_insert_def

lemma issue_journal: "journal (snd (issue c s)) = journal s @ [c]"
  by (simp add: issue_def split: list.splits)

lemma issue_keeps: "trips (snd (issue c s)) = trips s \<and> seq (snd (issue c s)) = seq s \<and> snapshot (snd (issue c s)) = snapshot s"
  by (simp add: issue_def split: list.splits)

lemma exec_begin_journal: "journal (snd (exec_begin s)) = journal s @ [Begin]"
  using issue_journal [of Begin s]
  by (cases "issue Begin s") (simp add: exec_begin_def split: option.splits)

lemma run_insert_journal: "journal (snd (run_insert t s)) = journal s @ [Insert]"
  using issue_journal [of Insert s]
  by (cases "issue Insert s") (simp add: run_insert_def split: option.splits)

lemma exec_commit_journal: "journal (snd (exec_commit s)) = journal s @ [Commit]"
  using issue_journal [of Commit s]
  by (cases "issue Commit s") (simp add: exec_commit_def split: option.splits)

lemma exec_rollback_journal: "journal (snd (exec_rollback s)) = journal s @ [Rollback]"
  using issue_journal [of Rollback s]
  by (cases "issue Rollback s") (simp add: exec_rollback_def split: option.splits prod.splits)

lemma insert_body_journal:
  "(case fst (insert_body t s) of
      Inr i \<Rightarrow> journal (snd (insert_body t s)) = journal s @ [Begin, Insert, Commit]
    | Inl e \<Rightarrow> journal (snd (insert_body t s)) \<in>
        {journal s @ [Begin], journal s @ [Begin, Insert], journal s @ [Begin, Insert, Commit]})"
proof (cases "exec_begin s")
  case (Pair r1 s1)
  note b = this
  have j1: "journal s1 = journal s @ [Begin]" using exec_begin_journal [of s] b by simp
  show ?thesis
  proof (cases r1)
    case (Inl e)
    then show ?thesis using b j1 by (simp add: insert_body_def)
  next
    case (Inr u)
    note r1 = this
    show ?thesis
    proof (cases "run_insert t s1")
      case (Pair r2 s2)
      note i = this
      have j2: "journal s2 = journal s @ [Begin, Insert]"
        using run_insert_journal [of t s1] i j1 by simp
      show ?thesis
      proof (cases r2)
        case (Inl e)
        then show ?thesis using b r1 i j2 by (simp add: insert_body_def)
      next
        case (Inr lastID)
        note r2 = this
        show ?thesis
        proof (cases "exec_commit s2")
          case (Pair r3 s3)
          have j3: "journal s3 = journal s @ [Begin, Insert, Commit]"
            using exec_commit_journal [of s2] Pair j2 by simp
          show ?thesis using b r1 i r2 Pair j3
            by (cases r3) (simp_all add: insert_body_def)
        qed
      qed
    qed
  qed
qed

lemma insertTrip_journal:
  "(case fst (insertTrip t s) of
      Inr (LastID i) \<Rightarrow> journal (snd (insertTrip t s)) = journal s @ [Begin, Insert, Commit]
    | _ \<Rightarrow> journal (snd (insertTrip t s)) \<in>
        {journal s @ [Begin, Rollback], journal s @ [Begin, Insert, Rollback],
         journal s @ [Begin, Insert, Commit, Rollback]})"
proof (cases "insert_body t s")
  case (Pair r s1)
  show ?thesis
  proof (cases r)
    case (Inr i)
    then show ?thesis using Pair insert_body_journal [of t s] by (simp add: insertTrip_def)
  next
    case (Inl e)
    then show ?thesis
      using Pair insert_body_journal [of t s] exec_rollback_journal [of s1]
      by (auto simp add: insertTrip_def Let_def)
  qed
qed

lemma exec_begin_saved: "snapshot s = None \<Longrightarrow> saved s (snd (exec_begin s))"
  using issue_keeps [of Begin s]
  by (cases "issue Begin s") (auto simp add: exec_begin_def saved_def split: option.splits)

lemma exec_begin_open: "snapshot s = None \<Longrightarrow> exec_begin s = (Inr u, s1) \<Longrightarrow> snapshot s1 = Some (trips s, seq s)"
  using issue_keeps [of Begin s]
  by (cases "issue Begin s") (auto simp add: exec_begin_def split: option.splits if_splits)

lemma run_insert_snapshot: "snapshot (snd (run_insert t s)) = snapshot s"
  using issue_keeps [of Insert s]
  by (cases "issue Insert s") (auto simp add: run_insert_def split: option.splits)

lemma exec_commit_fails: "exec_commit s = (Inl e, s1) \<Longrightarrow> snapshot s1 = snapshot s"
  using issue_keeps [of Commit s]
  by (cases "issue Commit s") (auto simp add: exec_commit_def split: option.splits if_splits)

lemma insert_body_fails_saved:
  assumes "snapshot s = None" "insert_body t s = (Inl e, s1)"
  shows "saved s s1"
proof (cases "exec_begin s")
  case (Pair r1 sa)
  show ?thesis
  proof (cases r1)
    case (Inl e1)
    then show ?thesis using assms Pair exec_begin_saved [of s] by (simp add: insert_body_def)
  next
    case (Inr u)
    have opened: "snapshot sa = Some (trips s, seq s)"
      using exec_begin_open [of s u sa] assms(1) Pair Inr by simp
    show ?thesis
    proof (cases "run_insert t sa")
      case (Pair r2 sb)
      have sb: "snapshot sb = Some (trips s, seq s)"
        using run_insert_snapshot [of t sa] Pair opened by simp
      show ?thesis
      proof (cases r2)
        case (Inl e2)
        then show ?thesis using assms \<open>exec_begin s = (r1, sa)\<close> Inr Pair sb
          by (simp add: insert_body_def saved_def)
      next
        case (Inr lastID)
        note r2 = this
        show ?thesis
        proof (cases "exec_commit sb")
          case (Pair r3 sc)
          show ?thesis
          proof (cases r3)
            case (Inl e3)
            then show ?thesis
              using assms \<open>exec_begin s = (r1, sa)\<close> \<open>r1 = Inr u\<close> \<open>run_insert t sa = (r2, sb)\<close> r2 Pair sb
                exec_commit_fails [of sb e3 sc]
              by (simp add: insert_body_def saved_def)
          next
            case (Inr u3)
            then show ?thesis
              using assms \<open>exec_begin s = (r1, sa)\<close> \<open>r1 = Inr u\<close> \<open>run_insert t sa = (r2, sb)\<close> r2 Pair
              by (simp add: insert_body_def)
          qed
        qed
      qed
    qed
  qed
qed

lemma exec_rollback_saved:
  assumes "saved s0 s" "snapshot (snd (exec_rollback s)) = None"
  shows "trips (snd (exec_rollback s)) = trips s0 \<and> seq (snd (exec_rollback s)) = seq s0"
  using assms issue_keeps [of Rollback s]
  by (cases "issue Rollback s") (auto simp add: exec_rollback_def saved_def split: option.splits)

lemma insertTrip_atomic:
  assumes "snapshot s = None" "snapshot (snd (insertTrip t s)) = None"
    "\<forall>i. fst (insertTrip t s) \<noteq> Inr (LastID i)"
  shows "trips (snd (insertTrip t s)) = trips s \<and> seq (snd (insertTrip t s)) = seq s"
proof (cases "insert_body t s")
  case (Pair r s1)
  show ?thesis
  proof (cases r)
    case (Inr i)
    then show ?thesis using assms(3) Pair by (simp add: insertTrip_def)
  next
    case (Inl e)
    have "saved s s1" using insert_body_fails_saved [of s t e s1] assms(1) Pair Inl by simp
    moreover have "snd (insertTrip t s) = snd (exec_rollback s1)"
      using Pair Inl by (simp add: insertTrip_def Let_def)
    ultimately show ?thesis using exec_rollback_saved [of s s1] assms(2) by simp
  qed
qed


lemma insertTrip_new:
  assumes "script s = []" "snapshot s = None" "null_column t = None"
    "natural_key t \<notin> set (stored_keys s)"
  shows "insertTrip t s = (Inr (LastID (next_rowid s)),
     s\<lparr>trips := trips s @ [(next_rowid s, t)], seq := next_rowid s,
       journal := journal s @ [Begin, Insert, Commit]\<rparr>)"
  using assms
  by (simp add: insertTrip_def insert_body_def stmt_defs stored_keys_def next_rowid_def)

lemma insertTrip_duplicate:
  assumes "script s = []" "snapshot s = None" "null_column t = None"
    "natural_key t \<in> set (stored_keys s)"
  shows "insertTrip t s = (Inr Duplicate, s\<lparr>journal := journal s @ [Begin, Insert, Rollback]\<rparr>)"
  using assms unique_failed_class
  by (simp add: insertTrip_def insert_body_def stmt_defs stored_keys_def next_rowid_def)

lemma insertTrip_null:
  assumes "script s = []" "snapshot s = None" "null_column t = Some c"
  shows "insertTrip t s = (Inr Duplicate, s\<lparr>journal := journal s @ [Begin, Insert, Rollback]\<rparr>)"
  using assms not_null_failed_class [OF null_column_cases [OF assms(3)]]
  by (simp add: insertTrip_def insert_body_def stmt_defs stored_keys_def next_rowid_def)

lemma corruption_signature:
  assumes "c \<in> Some ` set corruptionCodes
      \<or> message_includes m (str ''database disk image is malformed'')
      \<or> message_includes m (str ''file is not a database'')"
  shows "isSQLiteCorruptionError (ErrorObj c n m)"
  using assms by (auto simp add: isSQLiteCorruptionError_def corruptionCodes_def)

lemma insertTrip_corruption:
  assumes "insert_body t s = (Inl e, s1)" "isSQLiteCorruptionError e"
  shows "fst (insertTrip t s) = Inl DatabaseCorruptionError"
  using assms by (simp add: insertTrip_def Let_def)

lemma fold_max_ge: "a \<le> fold max xs (a::nat) \<and> (\<forall>x \<in> set xs. x \<le> fold max xs a)"
proof (induction xs arbitrary: a)
  case Nil
  then show ?case by simp
next
  case (Cons y ys)
  have "max y a \<le> fold max ys (max y a)" using Cons.IH by blast
  then show ?case using Cons.IH [of "max y a"] by auto
qed

lemma next_rowid_fresh: "next_rowid s \<notin> fst ` set (trips s)"
  using fold_max_ge [of "seq s" "map fst (trips s)"]
  by (auto simp add: next_rowid_def)

text \<open>
  C1. \<open>insertTrip\<close> issues \<open>BEGIN\<close>, the \<open>INSERT\<close> and \<open>COMMIT\<close> when it returns an identifier,
  and in every other case what it got through of these three followed by \<open>ROLLBACK\<close>; after a
  failure that leaves no transaction open the table is as it was. On a store where nothing
  fails it returns a new row identifier and stores the trip when the natural key is free, and
  returns the duplicate result, leaving the table alone, when the key is taken. Whenever the
  value thrown in the \<open>try\<close> block carries one of the three corruption codes or one of the
  two message fragments, it throws the corruption error.
\<close>

theorem insertTrip_contract:
  "(case fst (insertTrip trip s) of
      Inr (LastID i) \<Rightarrow> journal (snd (insertTrip trip s)) = journal s @ [Begin, Insert, Commit]
    | _ \<Rightarrow> journal (snd (insertTrip trip s)) \<in>
        {journal s @ [Begin, Rollback], journal s @ [Begin, Insert, Rollback],
         journal s @ [Begin, Insert, Commit, Rollback]})
   \<and> (snapshot s = None \<and> snapshot (snd (insertTrip trip s)) = None
        \<and> (\<forall>i. fst (insertTrip trip s) \<noteq> Inr (LastID i)) \<longrightarrow>
      trips (snd (insertTrip trip s)) = trips s \<and> seq (snd (insertTrip trip s)) = seq s)
   \<and> (script s = [] \<and> snapshot s = None \<and> null_column trip = None
        \<and> natural_key trip \<notin> set (stored_keys s) \<longrightarrow>
      insertTrip trip s =
        (Inr (LastID (next_rowid s)),
         s\<lparr>trips := trips s @ [(next_rowid s, trip)], seq := next_rowid s,
           journal := journal s @ [Begin, Insert, Commit]\<rparr>)
      \<and> next_rowid s \<notin> fst ` set (trips s))
   \<and> (script s = [] \<and> snapshot s = None \<and> null_column trip = None
        \<and> natural_key trip \<in> set (stored_keys s) \<longrightarrow>
      insertTrip trip s =
        (Inr Duplicate, s\<lparr>journal := journal s @ [Begin, Insert, Rollback]\<rparr>))
   \<and> (insert_body trip s = (Inl (ErrorObj c n m), s1)
        \<and> (c \<in> Some ` set corruptionCodes
           \<or> message_includes m (str ''database disk image is malformed'')
           \<or> message_includes m (str ''file is not a database'')) \<longrightarrow>
      fst (insertTrip trip s) = Inl DatabaseCorruptionError)"
proof -
  have corruption: "insert_body trip s = (Inl (ErrorObj c n m), s1)
        \<and> (c \<in> Some ` set corruptionCodes
           \<or> message_includes m (str ''database disk image is malformed'')
           \<or> message_includes m (str ''file is not a database'')) \<longrightarrow>
      fst (insertTrip trip s) = Inl DatabaseCorruptionError"
    using corruption_signature [of c m n] insertTrip_corruption [of trip s "ErrorObj c n m" s1]
    by blast
  show ?thesis
    using insertTrip_journal [of trip s] insertTrip_atomic [of s trip]
      insertTrip_new [of s trip] insertTrip_duplicate [of s trip] next_rowid_fresh [of s]
      corruption
    by blast
qed

theorem insertTrip_contract_witness:
  "insertTrip sample_trip empty_store =
     (Inr (LastID 1),
      empty_store\<lparr>trips := [(1, sample_trip)], seq := 1, journal := [Begin, Insert, Commit]\<rparr>)
   \<and> insertTrip sample_trip (empty_store\<lparr>trips := [(1, sample_trip)], seq := 1\<rparr>) =
     (Inr Duplicate,
      empty_store\<lparr>trips := [(1, sample_trip)], seq := 1, journal := [Begin, Insert, Rollback]\<rparr>)
   \<and> fst (insertTrip sample_trip (empty_store\<lparr>script := [None, Some malformed]\<rparr>)) =
     Inl DatabaseCorruptionError"
proof -
  have fresh: "insertTrip sample_trip empty_store =
     (Inr (LastID 1),
      empty_store\<lparr>trips := [(1, sample_trip)], seq := 1, journal := [Begin, Insert, Commit]\<rparr>)"
    using insertTrip_contract [where trip = sample_trip and s = empty_store]
    by (simp add: empty_store_def sample_trip_def null_column_def stored_keys_def
        next_rowid_def)
  have again: "insertTrip sample_trip (empty_store\<lparr>trips := [(1, sample_trip)], seq := 1\<rparr>) =
     (Inr Duplicate,
      empty_store\<lparr>trips := [(1, sample_trip)], seq := 1, journal := [Begin, Insert, Rollback]\<rparr>)"
    using insertTrip_contract [where trip = sample_trip
        and s = "empty_store\<lparr>trips := [(1, sample_trip)], seq := 1\<rparr>"]
    by (simp add: empty_store_def sample_trip_def null_column_def stored_keys_def
        next_rowid_def)
  have thrown: "insert_body sample_trip (empty_store\<lparr>script := [None, Some malformed]\<rparr>) =
     (Inl (ErrorObj (Some (str ''SQLITE_CORRUPT'')) (Some 11)
         (Some (str ''SQLITE_CORRUPT'' @ str '': '' @ str ''database disk image is malformed''))),
      empty_store\<lparr>snapshot := Some ([], 0), script := [], journal := [Begin, Insert]\<rparr>)"
    by (simp add: empty_store_def malformed_def sqlite_error_def insert_body_def stmt_defs)
  have known: "Some (str ''SQLITE_CORRUPT'') \<in> Some ` set corruptionCodes"
    by (simp add: corruptionCodes_def)
  have corrupted: "fst (insertTrip sample_trip (empty_store\<lparr>script := [None, Some malformed]\<rparr>))
      = Inl DatabaseCorruptionError"
    using insertTrip_contract [where trip = sample_trip
        and s = "empty_store\<lparr>script := [None, Some malformed]\<rparr>"
        and c = "Some (str ''SQLITE_CORRUPT'')" and n = "Some 11"
        and m = "Some (str ''SQLITE_CORRUPT'' @ str '': ''
                       @ str ''database disk image is malformed'')"
        and ?s1.0 = "empty_store\<lparr>snapshot := Some ([], 0), script := [],
                                  journal := [Begin, Insert]\<rparr>"] thrown known
    by blast
  show ?thesis using fresh again corrupted by simp
qed

subsection \<open>The import loop\<close>

lemma insertTrip_quiet:
  assumes "quiet s"
  shows "insertTrip t s =
     (if absorbed s t then (Inr Duplicate, s\<lparr>journal := journal s @ [Begin, Insert, Rollback]\<rparr>)
      else (Inr (LastID (next_rowid s)),
            s\<lparr>trips := trips s @ [(next_rowid s, t)], seq := next_rowid s,
              journal := journal s @ [Begin, Insert, Commit]\<rparr>))"
proof (cases "null_column t")
  case None
  then show ?thesis
    using assms insertTrip_new [of s t] insertTrip_duplicate [of s t]
    by (simp add: quiet_def absorbed_def)
next
  case (Some c)
  then show ?thesis using assms insertTrip_null [of s t c] by (simp add: quiet_def absorbed_def)
qed

lemma import_absorbed:
  "quiet s \<Longrightarrow> \<forall>t \<in> set ts. absorbed s t \<Longrightarrow>
     fst (import_loop ts c s) = c\<lparr>duplicates := duplicates c + length ts\<rparr>
     \<and> trips (snd (import_loop ts c s)) = trips s
     \<and> quiet (snd (import_loop ts c s))"
proof (induction ts arbitrary: c s)
  case Nil
  then show ?case by simp
next
  case (Cons t ts)
  let ?s' = "s\<lparr>journal := journal s @ [Begin, Insert, Rollback]\<rparr>"
  have step: "insertTrip t s = (Inr Duplicate, ?s')"
    using insertTrip_quiet [of s t] Cons.prems by simp
  have q: "quiet ?s'" using Cons.prems by (simp add: quiet_def)
  have a: "\<forall>t \<in> set ts. absorbed ?s' t" using Cons.prems by (simp add: absorbed_def stored_keys_def)
  show ?case using Cons.IH [OF q a, of "c\<lparr>duplicates := duplicates c + 1\<rparr>"] step by simp
qed

lemma import_first:
  "quiet s \<Longrightarrow>
     quiet (snd (import_loop ts c s))
     \<and> (\<forall>t. absorbed s t \<longrightarrow> absorbed (snd (import_loop ts c s)) t)
     \<and> (\<forall>t \<in> set ts. absorbed (snd (import_loop ts c s)) t)
     \<and> errors (fst (import_loop ts c s)) = errors c
     \<and> (distinct (stored_keys s) \<longrightarrow> distinct (stored_keys (snd (import_loop ts c s))))"
proof (induction ts arbitrary: c s)
  case Nil
  then show ?case by simp
next
  case (Cons t ts)
  show ?case
  proof (cases "absorbed s t")
    case True
    let ?s' = "s\<lparr>journal := journal s @ [Begin, Insert, Rollback]\<rparr>"
    have step: "insertTrip t s = (Inr Duplicate, ?s')"
      using insertTrip_quiet [of s t] Cons.prems True by simp
    have q: "quiet ?s'" using Cons.prems by (simp add: quiet_def)
    have same: "\<And>u. absorbed ?s' u = absorbed s u" by (simp add: absorbed_def stored_keys_def)
    have k: "stored_keys ?s' = stored_keys s" by (simp add: stored_keys_def)
    show ?thesis
      using Cons.IH [OF q, of "c\<lparr>duplicates := duplicates c + 1\<rparr>"] step True same k by simp
  next
    case False
    let ?s' = "s\<lparr>trips := trips s @ [(next_rowid s, t)], seq := next_rowid s,
              journal := journal s @ [Begin, Insert, Commit]\<rparr>"
    have step: "insertTrip t s = (Inr (LastID (next_rowid s)), ?s')"
      using insertTrip_quiet [of s t] Cons.prems False by simp
    have q: "quiet ?s'" using Cons.prems by (simp add: quiet_def)
    have k: "stored_keys ?s' = stored_keys s @ [natural_key t]" by (simp add: stored_keys_def)
    have grows: "\<And>u. absorbed s u \<Longrightarrow> absorbed ?s' u" by (auto simp add: absorbed_def k)
    have now: "absorbed ?s' t" by (simp add: absorbed_def k)
    have d: "distinct (stored_keys s) \<Longrightarrow> distinct (stored_keys ?s')"
      using False by (simp add: absorbed_def k)
    show ?thesis
      using Cons.IH [OF q, of "c\<lparr>imported := imported c + 1\<rparr>"] step grows now d by simp
  qed
qed

lemma import_twice:
  assumes "quiet s"
  shows "fst (import_loop ts no_tally (snd (import_loop ts c s))) =
           \<lparr>imported = 0, duplicates = length ts, errors = 0\<rparr>
     \<and> trips (snd (import_loop ts no_tally (snd (import_loop ts c s)))) =
         trips (snd (import_loop ts c s))"
  using import_first [OF assms, of ts c]
    import_absorbed [of "snd (import_loop ts c s)" ts no_tally]
  by (simp add: no_tally_def)


lemma first_import_sample:
  "fst (import_loop [sample_trip, sample_trip] no_tally empty_store) =
     \<lparr>imported = 1, duplicates = 1, errors = 0\<rparr>
   \<and> trips (snd (import_loop [sample_trip, sample_trip] no_tally empty_store)) =
       [(1, sample_trip)]"
proof -
  let ?s1 = "empty_store\<lparr>trips := [(1, sample_trip)], seq := 1,
      journal := [Begin, Insert, Commit]\<rparr>"
  have q0: "quiet empty_store" by (simp add: quiet_def empty_store_def)
  have n0: "\<not> absorbed empty_store sample_trip"
    by (simp add: absorbed_def null_column_def stored_keys_def empty_store_def sample_trip_def)
  have r0: "next_rowid empty_store = 1" by (simp add: next_rowid_def empty_store_def)
  have one: "insertTrip sample_trip empty_store = (Inr (LastID 1), ?s1)"
    using insertTrip_quiet [OF q0, of sample_trip] n0 r0 by (simp add: empty_store_def)
  have q1: "quiet ?s1" by (simp add: quiet_def empty_store_def)
  have a1: "absorbed ?s1 sample_trip"
    by (simp add: absorbed_def stored_keys_def empty_store_def)
  have two: "insertTrip sample_trip ?s1 =
      (Inr Duplicate, ?s1\<lparr>journal := journal ?s1 @ [Begin, Insert, Rollback]\<rparr>)"
    using insertTrip_quiet [OF q1, of sample_trip] a1 by simp
  show ?thesis using one two by (simp add: no_tally_def empty_store_def)
qed

text \<open>
  C2. Importing the same parsed trips a second time, on a store where nothing fails, imports
  nothing: every trip of the second run is answered with the duplicate result, the second
  tally is zero imported, all duplicates and no errors, and the table after the second run is
  the table after the first. The natural keys of the table stay pairwise distinct, and the
  first run has stored the key of every trip that has no \<open>NULL\<close> column.
\<close>

theorem import_idempotent:
  "script s = [] \<and> snapshot s = None \<longrightarrow>
     fst (import_loop ts no_tally (snd (import_loop ts c s))) =
       \<lparr>imported = 0, duplicates = length ts, errors = 0\<rparr>
     \<and> trips (snd (import_loop ts no_tally (snd (import_loop ts c s)))) =
         trips (snd (import_loop ts c s))
     \<and> (\<forall>t \<in> set ts. fst (insertTrip t (snd (import_loop ts c s))) = Inr Duplicate)
     \<and> (distinct (stored_keys s) \<longrightarrow> distinct (stored_keys (snd (import_loop ts c s))))
     \<and> (\<forall>t \<in> set ts. null_column t = None \<longrightarrow>
           natural_key t \<in> set (stored_keys (snd (import_loop ts c s))))"
proof
  assume "script s = [] \<and> snapshot s = None"
  then have q: "quiet s" by (simp add: quiet_def)
  have dup: "\<forall>t \<in> set ts. fst (insertTrip t (snd (import_loop ts c s))) = Inr Duplicate"
    using import_first [OF q, of ts c] insertTrip_quiet [of "snd (import_loop ts c s)"]
    by simp
  have kept: "\<forall>t \<in> set ts. null_column t = None \<longrightarrow>
      natural_key t \<in> set (stored_keys (snd (import_loop ts c s)))"
    using import_first [OF q, of ts c] by (auto simp add: absorbed_def)
  have rest: "fst (import_loop ts no_tally (snd (import_loop ts c s))) =
       \<lparr>imported = 0, duplicates = length ts, errors = 0\<rparr>
     \<and> trips (snd (import_loop ts no_tally (snd (import_loop ts c s)))) =
         trips (snd (import_loop ts c s))"
    using import_twice [OF q, of ts c] .
  have keys: "distinct (stored_keys s) \<longrightarrow> distinct (stored_keys (snd (import_loop ts c s)))"
    using import_first [OF q, of ts c] by blast
  show "fst (import_loop ts no_tally (snd (import_loop ts c s))) =
       \<lparr>imported = 0, duplicates = length ts, errors = 0\<rparr>
     \<and> trips (snd (import_loop ts no_tally (snd (import_loop ts c s)))) =
         trips (snd (import_loop ts c s))
     \<and> (\<forall>t \<in> set ts. fst (insertTrip t (snd (import_loop ts c s))) = Inr Duplicate)
     \<and> (distinct (stored_keys s) \<longrightarrow> distinct (stored_keys (snd (import_loop ts c s))))
     \<and> (\<forall>t \<in> set ts. null_column t = None \<longrightarrow>
           natural_key t \<in> set (stored_keys (snd (import_loop ts c s))))"
    using rest dup keys kept by blast
qed

theorem import_idempotent_witness:
  "fst (import_loop [sample_trip, sample_trip] no_tally
         (snd (import_loop [sample_trip, sample_trip] no_tally empty_store))) =
     \<lparr>imported = 0, duplicates = 2, errors = 0\<rparr>
   \<and> trips (snd (import_loop [sample_trip, sample_trip] no_tally
         (snd (import_loop [sample_trip, sample_trip] no_tally empty_store)))) =
       trips (snd (import_loop [sample_trip, sample_trip] no_tally empty_store))
   \<and> fst (import_loop [sample_trip, sample_trip] no_tally empty_store) =
       \<lparr>imported = 1, duplicates = 1, errors = 0\<rparr>
   \<and> trips (snd (import_loop [sample_trip, sample_trip] no_tally empty_store)) =
       [(1, sample_trip)]"
proof -
  have "fst (import_loop [sample_trip, sample_trip] no_tally
         (snd (import_loop [sample_trip, sample_trip] no_tally empty_store))) =
     \<lparr>imported = 0, duplicates = 2, errors = 0\<rparr>
   \<and> trips (snd (import_loop [sample_trip, sample_trip] no_tally
         (snd (import_loop [sample_trip, sample_trip] no_tally empty_store)))) =
       trips (snd (import_loop [sample_trip, sample_trip] no_tally empty_store))"
    using import_idempotent [of empty_store "[sample_trip, sample_trip]" no_tally]
    by (simp add: empty_store_def)
  then show ?thesis using first_import_sample by blast
qed

subsection \<open>getTrips: rounding\<close>

lemma round_half_even_int: "round_half_even (of_int n) = n"
  by (simp add: round_half_even_def)

lemma binary_exponent_int:
  assumes "0 < n"
  shows "binary_exponent (of_int n) = bitlen n - 1"
  using assms by (simp add: binary_exponent_def)

lemma bitlen_le_54:
  assumes "0 < n" "n \<le> 2 ^ 53"
  shows "bitlen n \<le> 54"
proof (rule ccontr)
  assume "\<not> bitlen n \<le> 54"
  then have "54 \<le> bitlen n - 1" by simp
  then have "(2::int) ^ 54 \<le> 2 ^ nat (bitlen n - 1)"
    by (intro power_increasing) auto
  also have "\<dots> \<le> n" using bitlen_bounds [OF assms(1)] by simp
  finally show False using assms(2) by simp
qed

lemma to_double_pos_int:
  assumes "0 < n" "n \<le> 2 ^ 53"
  shows "to_double (of_int n) = Num (of_int n)"
proof -
  define e where "e = bitlen n - 1"
  have "bitlen n \<noteq> 0" using assms(1) by (simp add: bitlen_eq_zero_iff)
  then have e0: "0 \<le> e" using bitlen_nonneg [of n] by (simp add: e_def)
  have e53: "e \<le> 53" using bitlen_le_54 [OF assms] by (simp add: e_def)
  have lo: "2 ^ nat e \<le> n" using bitlen_bounds [OF assms(1)] by (simp add: e_def)
  have ex: "binary_exponent (of_int n) = e" using binary_exponent_int [OF assms(1)] by (simp add: e_def)
  have m: "max (e - 52) (- 1074) = e - 52" using e0 by simp
  have "of_int (round_half_even (of_int n / two_power (e - 52))) * two_power (e - 52) = (of_int n :: rat)"
  proof (cases "e \<le> 52")
    case True
    then have tp: "two_power (e - 52) = 1 / 2 ^ nat (52 - e)"
      by (cases "e = 52") (simp_all add: two_power_def)
    have "(of_int n :: rat) / two_power (e - 52) = of_int (n * 2 ^ nat (52 - e))"
      by (simp add: tp)
    then have "round_half_even (of_int n / two_power (e - 52)) = n * 2 ^ nat (52 - e)"
      by (simp only: round_half_even_int)
    then show ?thesis by (simp add: tp)
  next
    case False
    then have e: "e = 53" using e53 by simp
    then have "2 ^ 53 \<le> n" using lo by simp
    then have n: "n = 2 ^ 53" using assms(2) by simp
    have "(of_int n :: rat) / two_power (e - 52) = of_int (2 ^ 52)"
      by (simp add: e n two_power_def)
    then have "round_half_even (of_int n / two_power (e - 52)) = 2 ^ 52"
      by (simp only: round_half_even_int)
    then show ?thesis by (simp add: e n two_power_def)
  qed
  moreover have "\<not> (2 :: rat) ^ 1024 \<le> of_int n"
  proof -
    have "(of_int n :: rat) \<le> of_int (2 ^ 53)" using assms(2) by (simp only: of_int_le_iff)
    also have "\<dots> < 2 ^ 1024" by simp
    finally show ?thesis by simp
  qed
  ultimately show ?thesis using assms(1) ex m
    by (simp add: to_double_def Let_def)
qed

lemma to_double_int:
  assumes "\<bar>n\<bar> \<le> 2 ^ 53"
  shows "to_double (of_int n) = Num (of_int n)"
proof (cases "n = 0")
  case True
  then show ?thesis by (simp add: to_double_def)
next
  case False
  show ?thesis
  proof (cases "0 < n")
    case True
    then show ?thesis using to_double_pos_int [of n] assms by simp
  next
    case neg: False
    then have p: "0 < - n" "- n \<le> 2 ^ 53" using False assms by simp_all
    have "to_double (of_int (- n)) = Num (of_int (- n))" using to_double_pos_int [OF p] .
    then show ?thesis using p(1)
      by (simp add: to_double_def Let_def split: if_splits)
  qed
qed

subsection \<open>getTrips: the bound of the end day\<close>

lemma days_in_month_bounds: "28 \<le> days_in_month y m \<and> days_in_month y m \<le> 31"
  by (simp add: days_in_month_def)

lemma days_in_month_pos: "0 < days_in_month y m"
  by (simp add: days_in_month_def)

lemma days_in_december: "days_in_month y 12 = 31"
  by (simp add: days_in_month_def)

lemma valid_tomorrow: "valid_day x \<Longrightarrow> valid_day (tomorrow x)"
  by (cases x) (auto simp add: valid_day_def tomorrow_def days_in_month_pos Suc_le_eq)

lemma valid_yesterday: "valid_day x \<Longrightarrow> valid_day (yesterday x)"
  by (cases x) (auto simp add: valid_day_def yesterday_def days_in_month_pos days_in_december Suc_le_eq)

lemma yesterday_tomorrow: "valid_day x \<Longrightarrow> yesterday (tomorrow x) = x"
  by (cases x) (auto simp add: valid_day_def yesterday_def tomorrow_def days_in_december)

lemma tomorrow_yesterday: "valid_day x \<Longrightarrow> tomorrow (yesterday x) = x"
  by (cases x) (auto simp add: valid_day_def yesterday_def tomorrow_def days_in_december)

lemma valid_funpow_tomorrow: "valid_day x \<Longrightarrow> valid_day ((tomorrow ^^ n) x)"
  by (induction n) (simp_all add: valid_tomorrow)

lemma valid_funpow_yesterday: "valid_day x \<Longrightarrow> valid_day ((yesterday ^^ n) x)"
  by (induction n) (simp_all add: valid_yesterday)

lemma valid_plus_days: "valid_day x \<Longrightarrow> valid_day (plus_days n x)"
  by (simp add: plus_days_def valid_funpow_tomorrow valid_funpow_yesterday)

lemma plus_days_0: "plus_days 0 x = x"
  by (simp add: plus_days_def)

lemma plus_days_1: "plus_days 1 x = tomorrow x"
  by (simp add: plus_days_def)

lemma tomorrow_plus_days:
  assumes "valid_day x"
  shows "tomorrow (plus_days n x) = plus_days (n + 1) x"
proof (cases "0 \<le> n")
  case True
  then have "nat (n + 1) = Suc (nat n)" by simp
  then show ?thesis using True by (simp add: plus_days_def)
next
  case False
  then obtain k where k: "nat (- n) = Suc k" by (cases "nat (- n)") auto
  then have k': "nat (- (n + 1)) = k" by simp
  have "tomorrow (plus_days n x) = tomorrow (yesterday ((yesterday ^^ k) x))"
    using False k by (simp add: plus_days_def)
  also have "\<dots> = (yesterday ^^ k) x"
    using tomorrow_yesterday valid_funpow_yesterday [OF assms] by blast
  also have "\<dots> = plus_days (n + 1) x"
  proof (cases "n + 1 = 0")
    case True
    then have "k = 0" using k' by simp
    then show ?thesis using True by (simp add: plus_days_def)
  next
    case neg: False
    then have "\<not> 0 \<le> n + 1" using False by simp
    then show ?thesis using k' by (simp add: plus_days_def)
  qed
  finally show ?thesis .
qed

lemma yesterday_plus_days:
  assumes "valid_day x"
  shows "yesterday (plus_days n x) = plus_days (n - 1) x"
proof -
  have "tomorrow (plus_days (n - 1) x) = plus_days n x"
    using tomorrow_plus_days [OF assms, of "n - 1"] by simp
  then have "yesterday (plus_days n x) = yesterday (tomorrow (plus_days (n - 1) x))" by simp
  also have "\<dots> = plus_days (n - 1) x"
    using yesterday_tomorrow valid_plus_days [OF assms] by blast
  finally show ?thesis .
qed

lemma plus_days_nat:
  assumes "valid_day x"
  shows "plus_days (int k) (plus_days b x) = plus_days (int k + b) x"
proof (induction k)
  case 0
  then show ?case by (simp add: plus_days_0)
next
  case (Suc k)
  have "plus_days (int (Suc k)) (plus_days b x) = tomorrow (plus_days (int k) (plus_days b x))"
    by (simp add: plus_days_def nat_add_distrib)
  also have "\<dots> = tomorrow (plus_days (int k + b) x)" using Suc by simp
  also have "\<dots> = plus_days (int k + b + 1) x" using tomorrow_plus_days [OF assms] by simp
  finally show ?case by (simp add: add.commute add.left_commute)
qed

lemma plus_days_neg:
  assumes "valid_day x"
  shows "plus_days (- int k) (plus_days b x) = plus_days (- int k + b) x"
proof (induction k)
  case 0
  then show ?case by (simp add: plus_days_0)
next
  case (Suc k)
  have "plus_days (- int (Suc k)) (plus_days b x) = yesterday (plus_days (- int k) (plus_days b x))"
    by (cases k) (simp_all add: plus_days_def nat_add_distrib)
  also have "\<dots> = yesterday (plus_days (- int k + b) x)" using Suc by simp
  also have "\<dots> = plus_days (- int k + b - 1) x" using yesterday_plus_days [OF assms] by simp
  finally show ?case by (simp add: algebra_simps)
qed

lemma plus_days_add:
  assumes "valid_day x"
  shows "plus_days a (plus_days b x) = plus_days (a + b) x"
proof (cases "0 \<le> a")
  case True
  then show ?thesis using plus_days_nat [OF assms, of "nat a" b] by simp
next
  case False
  then show ?thesis using plus_days_neg [OF assms, of "nat (- a)" b] by simp
qed

lemma funpow_tomorrow_in_month:
  "1 + k \<le> days_in_month y m \<Longrightarrow> (tomorrow ^^ k) (y, m, 1) = (y, m, 1 + k)"
  by (induction k) (simp_all add: tomorrow_def)

lemma first_plus_days:
  assumes "valid_day (y, m, d)"
  shows "plus_days (int d - 1) (y, m, 1) = (y, m, d)"
proof -
  obtain k where k: "d = 1 + k" using assms by (cases d) (auto simp add: valid_day_def)
  then have "1 + k \<le> days_in_month y m" using assms by (simp add: valid_day_def)
  then show ?thesis using funpow_tomorrow_in_month [of k y m] k by (simp add: plus_days_def)
qed

lemma set_next_day:
  assumes "valid_day (y, m, d)"
  shows "plus_days (int d + 1 - 1) (y, m, 1) = tomorrow (y, m, d)"
proof -
  have v: "valid_day (y, m, 1)" using assms by (simp add: valid_day_def days_in_month_pos Suc_le_eq)
  have "tomorrow (plus_days (int d - 1) (y, m, 1)) = plus_days (int d) (y, m, 1)"
    using tomorrow_plus_days [OF v, of "int d - 1"] by simp
  then show ?thesis using first_plus_days [OF assms] by simp
qed

lemma append_same_less: "(xs @ u < xs @ v) = (u < (v :: nat list))"
  by (induction xs) simp_all

lemma append_less_same_length:
  "length xs = length ys \<Longrightarrow> xs < ys \<Longrightarrow> xs @ u < ys @ (v :: nat list)"
  by (induction xs ys rule: list_induct2) auto

lemma length_pad: "length (pad w n) = w"
  by (induction w arbitrary: n) simp_all

lemma pad_digits: "list_all is_digit (pad w n)"
  by (induction w arbitrary: n) (simp_all add: is_digit_def)

lemma pad_less: "a < b \<Longrightarrow> b < 10 ^ w \<Longrightarrow> pad w a < pad w b"
proof (induction w arbitrary: a b)
  case 0
  then show ?case by simp
next
  case (Suc w)
  have b1: "b div 10 < 10 ^ w" using Suc.prems(2) by (simp add: less_mult_imp_div_less mult.commute)
  show ?case
  proof (cases "a div 10 < b div 10")
    case True
    then have "pad w (a div 10) < pad w (b div 10)" using Suc.IH b1 by blast
    then show ?thesis using append_less_same_length [of "pad w (a div 10)" "pad w (b div 10)"]
      by (simp add: length_pad)
  next
    case False
    then have eq: "a div 10 = b div 10" using Suc.prems(1) by (simp add: div_le_mono le_antisym)
    then have "a mod 10 < b mod 10" using Suc.prems(1)
      by (metis div_mult_mod_eq nat_add_left_cancel_less)
    then show ?thesis using eq by (simp add: append_same_less)
  qed
qed

lemma decimal_snoc: "decimal (ds @ [c]) = 10 * decimal ds + (c - 48)"
  by (simp add: decimal_def)

lemma decimal_bound: "list_all is_digit ds \<Longrightarrow> decimal ds < 10 ^ length ds"
proof (induction ds rule: rev_induct)
  case Nil
  then show ?case by (simp add: decimal_def)
next
  case (snoc c ds)
  then have "decimal ds < 10 ^ length ds" "c - 48 < 10" by (auto simp add: is_digit_def)
  then show ?case by (simp add: decimal_snoc)
qed

lemma pad_decimal: "list_all is_digit ds \<Longrightarrow> pad (length ds) (decimal ds) = ds"
proof (induction ds rule: rev_induct)
  case Nil
  then show ?case by simp
next
  case (snoc c ds)
  then have c: "48 \<le> c" "c - 48 < 10" and ih: "pad (length ds) (decimal ds) = ds"
    by (auto simp add: is_digit_def)
  define k where "k = c - 48"
  have k: "k < 10" "48 + k = c" using c by (simp_all add: k_def)
  have "(10 * decimal ds + k) div 10 = decimal ds" "(10 * decimal ds + k) mod 10 = k"
    using k(1) by simp_all
  then have "pad (Suc (length ds)) (10 * decimal ds + k) = ds @ [c]"
    using ih k(2) by simp
  moreover have "decimal (ds @ [c]) = 10 * decimal ds + k"
    by (simp only: decimal_snoc k_def)
  ultimately show ?case by (simp only: length_append_singleton)
qed

lemma calendar_date_shape:
  assumes "calendar_date s = Some (y, m, d)"
  obtains a b c where "s = a @ [45] @ b @ [45] @ c" "length a = 4" "length b = 2" "length c = 2"
    "list_all is_digit a" "list_all is_digit b" "list_all is_digit c"
    "y = int (decimal a)" "m = decimal b" "d = decimal c" "valid_day (y, m, d)"
proof -
  let ?a = "take 4 s" and ?b = "take 2 (drop 5 s)" and ?c = "drop 8 s"
  have len: "length s = 10" and s4: "s ! 4 = 45" and s7: "s ! 7 = 45"
    and dig: "list_all is_digit (?a @ ?b @ ?c)"
    using assms by (auto simp add: calendar_date_def Let_def split: if_splits)
  have ymd: "y = int (decimal ?a)" "m = decimal ?b" "d = decimal ?c" and v: "valid_day (y, m, d)"
    using assms by (auto simp add: calendar_date_def Let_def split: if_splits)
  have la: "length ?a = 4" and lb: "length ?b = 2" and lc: "length ?c = 2" using len by simp_all
  have da: "list_all is_digit ?a" and db: "list_all is_digit ?b" and dc: "list_all is_digit ?c"
    using dig by simp_all
  have "s = ?a @ drop 4 s" by simp
  also have "drop 4 s = s ! 4 # drop 5 s" using len by (simp add: Cons_nth_drop_Suc [symmetric])
  also have "drop 5 s = ?b @ drop 7 s"
    using append_take_drop_id [of 2 "drop 5 s"] by simp
  also have "drop 7 s = s ! 7 # ?c" using len by (simp add: Cons_nth_drop_Suc [symmetric])
  finally have "s = ?a @ [45] @ ?b @ [45] @ ?c" using s4 s7 by simp
  then show ?thesis using that [of ?a ?b ?c] la lb lc da db dc ymd v by blast
qed

lemma fixed_number_append:
  "list_all is_digit a \<Longrightarrow> length a = w \<Longrightarrow> fixed_number w (a @ r) = Some (decimal a, r)"
  by (simp add: fixed_number_def)

lemma skip_Cons: "skip c (x # r) = (if x = c then Some r else None)"
  by (simp add: skip_def)

lemma iso_format_date_only:
  assumes "length a = 4" "length b = 2" "length c = 2"
    "list_all is_digit a" "list_all is_digit b" "list_all is_digit c"
    "valid_day (int (decimal a), decimal b, decimal c)"
  shows "iso_format (a @ [45] @ b @ [45] @ c) =
     Some ((int (decimal a), decimal b, decimal c), 0, Offset 0)"
proof -
  obtain a0 a' where a: "a = a0 # a'" using assms(1) by (cases a) auto
  then have a0: "a0 \<noteq> 43" "a0 \<noteq> 45" using assms(4) by (auto simp add: is_digit_def)
  have "skip 43 (a @ [45] @ b @ [45] @ c) = None" "skip 45 (a @ [45] @ b @ [45] @ c) = None"
    using a a0 by (simp_all add: skip_Cons)
  then have y: "iso_year (a @ [45] @ b @ [45] @ c) = Some (int (decimal a), [45] @ b @ [45] @ c)"
    using fixed_number_append [OF assms(4,1), of "[45] @ b @ [45] @ c"]
    by (simp add: iso_year_def)
  have fb: "fixed_number 2 (b @ [45] @ c) = Some (decimal b, [45] @ c)"
    using fixed_number_append [OF assms(5,2)] by simp
  have fc: "fixed_number 2 c = Some (decimal c, [])"
    using fixed_number_append [OF assms(6,3), of "[]"] by simp
  have md: "iso_month_day (int (decimal a)) ([45] @ b @ [45] @ c) =
      Some ((decimal b, decimal c), [])"
    using assms(7) fb fc by (simp add: iso_month_day_def skip_Cons valid_day_def)
  show ?thesis using y md by (simp add: iso_format_def)
qed

lemma calendar_date_iso:
  assumes "calendar_date s = Some ymd"
  shows "iso_format s = Some (ymd, 0, Offset 0)"
proof -
  obtain y m d where ymd: "ymd = (y, m, d)" by (cases ymd) auto
  from assms ymd obtain a b c where
    "s = a @ [45] @ b @ [45] @ c" "length a = 4" "length b = 2" "length c = 2"
    "list_all is_digit a" "list_all is_digit b" "list_all is_digit c"
    "y = int (decimal a)" "m = decimal b" "d = decimal c" "valid_day (y, m, d)"
    using calendar_date_shape [of s y m d] by blast
  then show ?thesis using iso_format_date_only [of a b c] ymd by simp
qed

lemma calendar_date_valid:
  assumes "calendar_date s = Some ymd"
  shows "valid_day ymd \<and> 0 \<le> fst ymd \<and> fst ymd \<le> 9999"
proof -
  obtain y m d where ymd: "ymd = (y, m, d)" by (cases ymd) auto
  from assms ymd obtain a b c where
    s: "length a = 4" "list_all is_digit a" "y = int (decimal a)" "valid_day (y, m, d)"
    using calendar_date_shape [of s y m d] by blast
  have "decimal a < 10 ^ 4" using decimal_bound [OF s(2)] s(1) by simp
  then show ?thesis using s ymd by simp
qed

lemma tomorrow_year: "fst x \<le> fst (tomorrow x) \<and> fst (tomorrow x) \<le> fst x + 1"
  by (cases x) (simp add: tomorrow_def)

lemma time_clip_common:
  "0 \<le> fst ymd \<Longrightarrow> fst ymd \<le> 10000 \<Longrightarrow> time_clip (ymd, ms) = Some (ymd, ms)"
  by (cases ymd) (simp add: time_clip_def before_def)

lemma plus_ms_0: "plus_ms 0 (ymd, 0) = (ymd, 0)"
  by (simp add: plus_ms_def Let_def ms_per_day_def plus_days_0)

lemma new_Date_calendar:
  assumes "calendar_date s = Some ymd"
  shows "new_Date rt s = Some (ymd, 0)"
  using calendar_date_iso [OF assms] calendar_date_valid [OF assms]
  by (simp add: new_Date_def plus_ms_0 time_clip_common)

lemma iso_date_no_T: "c \<in> set (iso_date x) \<Longrightarrow> c \<noteq> 84"
proof -
  have p: "c \<in> set (pad w n) \<Longrightarrow> c \<noteq> 84" for w n
    using pad_digits [of w n] by (force simp add: list_all_iff is_digit_def)
  assume "c \<in> set (iso_date x)"
  then show ?thesis using p by (cases x) (auto simp add: iso_date_def simp del: pad.simps split: if_splits)
qed

lemma date_part: "takeWhile (\<lambda>c. c \<noteq> 84) (iso_date x @ [84] @ rest) = iso_date x"
  using iso_date_no_T [of _ x] by (simp add: takeWhile_append2)

lemma nextDay_value:
  "nextDay rt dateTo =
     (case setDate rt (map_option (\<lambda>d. int d + 1) (getDate rt (new_Date rt dateTo)))
             (new_Date rt dateTo) of
        None \<Rightarrow> Inl (js_error ''Invalid time value'')
      | Some (ymd, ms) \<Rightarrow> Inr (iso_date ymd))"
  using date_part
  by (simp add: nextDay_def Let_def toISOString_def split: option.splits)

lemma nextDay_invalid:
  "new_Date rt dateTo = None \<Longrightarrow> nextDay rt dateTo = Inl (js_error ''Invalid time value'')"
  by (simp add: nextDay_value setDate_def)

lemma nextDay_calendar:
  assumes "calendar_date dateTo = Some ymd" "steady rt ymd"
  shows "nextDay rt dateTo = Inr (iso_date (tomorrow ymd))"
proof -
  define o1 where "o1 = tza_utc rt (ymd, 0)"
  define k where "k = o1 div ms_per_day"
  define r where "r = o1 mod ms_per_day"
  have v: "valid_day ymd" and yr: "0 \<le> fst ymd" "fst ymd \<le> 9999"
    using calendar_date_valid [OF assms(1)] by simp_all
  have r0: "0 \<le> r" by (simp add: r_def ms_per_day_def)
  have loc: "to_local rt (ymd, 0) = (plus_days k ymd, r)"
    by (simp add: to_local_def plus_ms_def Let_def o1_def k_def r_def)
  obtain y' m' d' where l: "plus_days k ymd = (y', m', d')" by (cases "plus_days k ymd") auto
  have vl: "valid_day (y', m', d')" using valid_plus_days [OF v, of k] l by simp
  define o2 where "o2 = tza_local rt (tomorrow (plus_days k ymd), r)"
  have st: "o2 \<le> o1" "o1 < o2 + ms_per_day"
    using assms(2) loc by (simp_all add: steady_def Let_def o1_def o2_def)
  have nd: "new_Date rt dateTo = Some (ymd, 0)" using new_Date_calendar [OF assms(1)] .
  have gd: "getDate rt (Some (ymd, 0)) = Some d'" using loc l by (simp add: getDate_def)
  have "(r - o2) div ms_per_day + k = (r - o2 + k * ms_per_day) div ms_per_day"
    by (simp add: ms_per_day_def)
  also have "r - o2 + k * ms_per_day = o1 - o2"
    by (simp add: r_def k_def algebra_simps)
  also have "(o1 - o2) div ms_per_day = 0" using st by (simp add: ms_per_day_def)
  finally have zero: "(r - o2) div ms_per_day + k = 0" .
  have "plus_days ((r - o2) div ms_per_day) (tomorrow (plus_days k ymd)) =
      plus_days ((r - o2) div ms_per_day) (plus_days (k + 1) ymd)"
    using tomorrow_plus_days [OF v] by simp
  also have "\<dots> = plus_days ((r - o2) div ms_per_day + (k + 1)) ymd"
    using plus_days_add [OF v] by simp
  also have "\<dots> = tomorrow ymd" using zero by (simp add: plus_days_1 add.assoc [symmetric])
  finally have day: "plus_days ((r - o2) div ms_per_day) (tomorrow (plus_days k ymd)) = tomorrow ymd" .
  have "to_utc rt (tomorrow (plus_days k ymd), r) =
      (tomorrow ymd, (r - o2) mod ms_per_day)"
    using day r0 by (simp add: to_utc_def plus_ms_def Let_def o2_def)
  moreover have "time_clip (tomorrow ymd, (r - o2) mod ms_per_day) =
      Some (tomorrow ymd, (r - o2) mod ms_per_day)"
    using tomorrow_year [of ymd] yr by (intro time_clip_common) simp_all
  ultimately have sd: "setDate rt (Some (int d' + 1)) (Some (ymd, 0)) =
      Some (tomorrow ymd, (r - o2) mod ms_per_day)"
    using loc l set_next_day [OF vl] by (simp add: setDate_def)
  show ?thesis using nd gd sd by (simp add: nextDay_value)
qed

lemma end_day_general:
  assumes "calendar_date dateTo = Some ymd" "fst (tomorrow ymd) \<le> 9999"
    "startsWith s dateTo"
  shows "s < iso_date (tomorrow ymd)"
proof -
  obtain yi m d where ymd: "ymd = (yi, m, d)" by (cases ymd) auto
  from assms(1) ymd obtain a b c where
    sh: "dateTo = a @ [45] @ b @ [45] @ c" "length a = 4" "length b = 2" "length c = 2"
    "list_all is_digit a" "list_all is_digit b" "list_all is_digit c"
    "yi = int (decimal a)" "m = decimal b" "d = decimal c" "valid_day (yi, m, d)"
    using calendar_date_shape [of dateTo yi m d] by blast
  define y where "y = decimal a"
  have yi: "yi = int y" using sh by (simp add: y_def)
  have pa: "a = pad 4 y" using pad_decimal [OF sh(5)] sh(2) by (simp add: y_def)
  have pb: "b = pad 2 m" using pad_decimal [OF sh(6)] sh(3,9) by simp
  have pc: "c = pad 2 d" using pad_decimal [OF sh(7)] sh(4,10) by simp
  have yb: "y < 10 ^ 4" using decimal_bound [OF sh(5)] sh(2) by (simp add: y_def)
  have shape: "dateTo = pad 4 y @ [45] @ pad 2 m @ [45] @ pad 2 d"
    using sh(1) pa pb pc by simp
  have m: "1 \<le> m" "m \<le> 12" and d: "1 \<le> d" "d \<le> days_in_month yi m"
    using sh(11) by (simp_all add: valid_day_def)
  have "take (length dateTo) s = dateTo" using assms(3) by (simp add: startsWith_def)
  then have s: "s = dateTo @ drop (length dateTo) s" by (metis append_take_drop_id)
  define rest where "rest = drop (length dateTo) s"
  have s': "s = pad 4 y @ [45] @ pad 2 m @ [45] @ pad 2 d @ rest"
    using s shape rest_def by simp
  have d31: "d \<le> 31" using d days_in_month_bounds [of yi m] by simp
  show ?thesis
  proof (cases "d < days_in_month yi m")
    case True
    have "pad 2 d < pad 2 (d + 1)" using pad_less [of d "d + 1" 2] d31 by simp
    then have "pad 2 d @ rest < pad 2 (d + 1) @ []"
      using append_less_same_length [of "pad 2 d" "pad 2 (d + 1)" rest "[]"] by (simp add: length_pad)
    then show ?thesis using True s' ymd yi yb
      by (simp add: tomorrow_def iso_date_def append_same_less del: pad.simps)
  next
    case False
    note last_day = this
    show ?thesis
    proof (cases "m < 12")
      case True
      have "pad 2 m < pad 2 (m + 1)" using pad_less [of m "m + 1" 2] True by simp
      then have "pad 2 m @ ([45] @ pad 2 d @ rest) < pad 2 (m + 1) @ ([45] @ pad 2 1)"
        using append_less_same_length [of "pad 2 m" "pad 2 (m + 1)"] by (simp add: length_pad)
      then show ?thesis using True last_day s' ymd yi yb
        by (simp add: tomorrow_def iso_date_def append_same_less del: pad.simps)
    next
      case False
      then have y1: "y + 1 \<le> 9999" using assms(2) ymd yi last_day by (simp add: tomorrow_def)
      have "pad 4 y < pad 4 (y + 1)" using pad_less [of y "y + 1" 4] y1 by simp
      then have "pad 4 y @ ([45] @ pad 2 m @ [45] @ pad 2 d @ rest)
          < pad 4 (y + 1) @ ([45] @ pad 2 1 @ [45] @ pad 2 1)"
        using append_less_same_length [of "pad 4 y" "pad 4 (y + 1)"] by (simp add: length_pad)
      moreover have "nat (int y + 1) = y + 1" by simp
      ultimately show ?thesis using False last_day s' ymd yi y1
        by (simp add: tomorrow_def iso_date_def del: pad.simps)
    qed
  qed
qed

subsection \<open>getTrips: pages\<close>

lemma order_asc: "ascending (order_by_startDate ASC rows)"
  using sorted_sort_key [of "\<lambda>r. startDate (snd r)" rows]
  by (simp add: ascending_def order_by_startDate_def sorted_map)

lemma order_desc: "descending (order_by_startDate DESC rows)"
  using sorted_sort_key [of "\<lambda>r. startDate (snd r)" rows]
  by (simp add: descending_def order_by_startDate_def sorted_map sorted_wrt_rev)

lemma order_mset: "mset (order_by_startDate d rows) = mset rows"
  by (cases d) (simp_all add: order_by_startDate_def)

lemma order_direction:
  "if sortOrder = str ''asc''
   then ascending (order_by_startDate (if sortOrder = str ''asc'' then ASC else DESC) rows)
   else descending (order_by_startDate (if sortOrder = str ''asc'' then ASC else DESC) rows)"
  using order_asc [of rows] order_desc [of rows] by simp

lemma must_be_int_int:
  "- (2 ^ 63) < n \<Longrightarrow> n < 2 ^ 63 \<Longrightarrow> must_be_int (Num (of_int n)) = Inr n"
proof -
  assume a: "- (2 ^ 63) < n" "n < 2 ^ 63"
  have "(of_int (- (2 ^ 63)) :: rat) < of_int n" "(of_int n :: rat) < of_int (2 ^ 63)"
    using a by (simp_all only: of_int_less_iff)
  then show ?thesis by (simp add: must_be_int_def)
qed

lemma offset_exact:
  assumes "\<bar>page\<bar> < 2 ^ 53" "\<bar>(page - 1) * limit\<bar> < 2 ^ 53"
  shows "num_mul (num_sub (Num (of_int page)) (Num 1)) (Num (of_int limit)) =
     Num (of_int ((page - 1) * limit))"
proof -
  have "\<bar>page - 1\<bar> \<le> 2 ^ 53" using assms(1) by simp
  then have "to_double (of_int (page - 1)) = Num (of_int (page - 1))" by (rule to_double_int)
  then have "num_sub (Num (of_int page)) (Num 1) = Num (of_int (page - 1))" by simp
  moreover have "to_double (of_int ((page - 1) * limit)) = Num (of_int ((page - 1) * limit))"
    using assms(2) by (intro to_double_int) simp
  ultimately show ?thesis by simp
qed

lemma getTrips_throws:
  "conditions rt c f d = Inl e \<Longrightarrow> getTrips rt page limit c f d sortOrder s = Inl e"
  by (simp add: getTrips_def Let_def)

lemma getTrips_rows:
  assumes "conditions rt c f d = Inr cs" "must_be_int limit = Inr n"
    "must_be_int (num_mul (num_sub page (Num 1)) limit) = Inr k"
  shows "getTrips rt page limit c f d sortOrder s =
     Inr ((if n < 0 then id else take (nat n))
            (drop (nat k)
               (order_by_startDate (if sortOrder = str ''asc'' then ASC else DESC)
                  (filter (\<lambda>r. list_all (\<lambda>p. p (snd r)) cs) (trips s)))),
          length (filter (\<lambda>r. list_all (\<lambda>p. p (snd r)) cs) (trips s)))"
  using assms by (simp add: getTrips_def limit_offset_def sql_where_def Let_def)

lemma getTrips_safe:
  assumes "conditions rt c f d = Inr cs"
    "\<bar>page\<bar> < 2 ^ 53" "\<bar>limit\<bar> < 2 ^ 53" "\<bar>(page - 1) * limit\<bar> < 2 ^ 53"
  shows "getTrips rt (Num (of_int page)) (Num (of_int limit)) c f d sortOrder s =
     Inr ((if limit < 0 then id else take (nat limit))
            (drop (nat ((page - 1) * limit))
               (order_by_startDate (if sortOrder = str ''asc'' then ASC else DESC)
                  (filter (\<lambda>r. list_all (\<lambda>p. p (snd r)) cs) (trips s)))),
          length (filter (\<lambda>r. list_all (\<lambda>p. p (snd r)) cs) (trips s)))"
proof -
  have l: "must_be_int (Num (of_int limit)) = Inr limit"
    using assms(3) by (intro must_be_int_int) simp_all
  have "must_be_int (Num (of_int ((page - 1) * limit))) = Inr ((page - 1) * limit)"
    using assms(4) by (intro must_be_int_int) simp_all
  then have k: "must_be_int (num_mul (num_sub (Num (of_int page)) (Num 1)) (Num (of_int limit))) =
      Inr ((page - 1) * limit)"
    using offset_exact [OF assms(2,4)] by simp
  show ?thesis using getTrips_rows [OF assms(1) l k] .
qed

lemma conditions_passes:
  assumes "dateTo = [] \<or> (\<exists>ymd. calendar_date dateTo = Some ymd \<and> steady rt ymd)"
  shows "\<exists>cs. conditions rt c f dateTo = Inr cs
     \<and> (\<forall>t. list_all (\<lambda>p. p t) cs = passes c f dateTo t)"
proof (cases "dateTo = []")
  case True
  then show ?thesis by (simp add: conditions_def passes_def)
next
  case False
  then obtain ymd where d: "calendar_date dateTo = Some ymd" "steady rt ymd"
    using assms by blast
  have n: "nextDay rt dateTo = Inr (iso_date (tomorrow ymd))" using nextDay_calendar [OF d] .
  show ?thesis using False n d(1) by (auto simp add: conditions_def passes_def)
qed

lemma conditions_invalid:
  "dateTo \<noteq> [] \<Longrightarrow> new_Date rt dateTo = None \<Longrightarrow>
     conditions rt c f dateTo = Inl (js_error ''Invalid time value'')"
  by (simp add: conditions_def nextDay_invalid)

lemma end_day_passes:
  assumes "calendar_date dateTo = Some ymd" "fst (tomorrow ymd) \<le> 9999"
    "startsWith (startDate t) dateTo" "c = [] \<or> category t = c" "f = [] \<or> f \<le> startDate t"
  shows "passes c f dateTo t"
  using assms end_day_general [OF assms(1,2,3)] by (simp add: passes_def)

lemma calendar_jan31: "calendar_date (str ''2024-01-31'') = Some (2024, 1, 31)"
  by (simp add: calendar_date_def str_def is_digit_def decimal_def valid_day_def
      days_in_month_def)

lemma bound_jan31: "iso_date (tomorrow (2024, 1, 31)) = str ''2024-02-01''"
  by code_simp

lemma year_jan31: "fst (tomorrow (2024, 1, 31)) \<le> 9999"
  by (simp add: tomorrow_def days_in_month_def)

lemma passes_jan31: "passes [] [] (str ''2024-01-31'') t = (startDate t < str ''2024-02-01'')"
proof -
  have "str ''2024-01-31'' \<noteq> []" by (simp add: str_def)
  then show ?thesis by (simp add: passes_def calendar_jan31 bound_jan31 del: One_nat_def)
qed

lemma steady_fixed:
  "(\<And>t. tza_utc rt t = k) \<Longrightarrow> (\<And>t. tza_local rt t = k) \<Longrightarrow> steady rt ymd"
  by (simp add: steady_def Let_def ms_per_day_def)

lemma steady_utc: "steady utc_runtime ymd"
  by (rule steady_fixed [of _ 0]) (simp_all add: utc_runtime_def)

lemma steady_stockholm_jan31: "steady stockholm (2024, 1, 31)"
  by (simp add: steady_def stockholm_def to_local_def plus_ms_def Let_def ms_per_day_def
      before_def plus_days_0 tomorrow_def days_in_month_def)

text \<open>
  C8, amended. Let the clocks of the process not be put forward between midnight UTC of
  \<open>dateTo\<close> and the same local time one day later. For every category, \<open>dateFrom\<close> and sort
  order, and every \<open>dateTo\<close> that is empty or a calendar date \<open>YYYY-MM-DD\<close>, there is a list
  \<open>full\<close>, a rearrangement of the stored trips that pass the filter, in ascending order of
  \<open>startDate\<close> for \<open>asc\<close> and in descending order otherwise, such that for every page and
  page size that are integers below \<open>2^53\<close> in magnitude, with an offset
  \<open>(page - 1) * limit\<close> below \<open>2^53\<close> in magnitude, \<open>getTrips\<close> returns the rows of \<open>full\<close> from
  that offset on, no more than the page size of them (all of them for a negative page size),
  together with the number of stored trips that pass the filter: the same total for every
  page, page size and sort order. The end day is included: when the day after \<open>dateTo\<close> is
  still in the year 9999 or before, every stored trip whose start date begins with \<open>dateTo\<close>
  and which meets the other two conditions is in \<open>full\<close>, and every trip whose start date
  begins with \<open>dateTo\<close> passes the \<open>dateTo\<close> filter; with \<open>dateTo\<close> \<open>2024-01-31\<close> every trip
  whose start date begins with \<open>2024-01-31\<close> passes. A \<open>dateTo\<close> that is not empty and that
  \<open>new Date\<close> does not read makes the call throw the \<open>RangeError\<close> of \<open>toISOString\<close>, whatever
  the other arguments.
\<close>

theorem getTrips_page:
  "(dateTo = [] \<or> (\<exists>ymd. calendar_date dateTo = Some ymd \<and> steady rt ymd) \<longrightarrow>
      (\<exists>full.
          mset full = mset (filter (\<lambda>r. passes c f dateTo (snd r)) (trips s))
        \<and> (if sortOrder = str ''asc'' then ascending full else descending full)
        \<and> (\<forall>page limit.
              \<bar>page\<bar> < 2 ^ 53 \<and> \<bar>limit\<bar> < 2 ^ 53 \<and> \<bar>(page - 1) * limit\<bar> < 2 ^ 53 \<longrightarrow>
              getTrips rt (Num (of_int page)) (Num (of_int limit)) c f dateTo sortOrder s =
                Inr ((if limit < 0 then id else take (nat limit))
                       (drop (nat ((page - 1) * limit)) full),
                     length (filter (\<lambda>r. passes c f dateTo (snd r)) (trips s))))
        \<and> (\<forall>r ymd. r \<in> set (trips s) \<and> calendar_date dateTo = Some ymd
              \<and> fst (tomorrow ymd) \<le> 9999 \<and> startsWith (startDate (snd r)) dateTo
              \<and> (c = [] \<or> category (snd r) = c) \<and> (f = [] \<or> f \<le> startDate (snd r)) \<longrightarrow>
              r \<in> set full)))
   \<and> (\<forall>ymd t. calendar_date dateTo = Some ymd \<and> fst (tomorrow ymd) \<le> 9999
          \<and> startsWith (startDate t) dateTo \<longrightarrow> passes [] [] dateTo t)
   \<and> (\<forall>t. startsWith (startDate t) (str ''2024-01-31'') \<longrightarrow>
          passes [] [] (str ''2024-01-31'') t)
   \<and> (dateTo \<noteq> [] \<and> new_Date rt dateTo = None \<longrightarrow>
        getTrips rt page' limit' c f dateTo sortOrder s = Inl (js_error ''Invalid time value''))"
proof (intro conjI impI)
  assume h: "dateTo = [] \<or> (\<exists>ymd. calendar_date dateTo = Some ymd \<and> steady rt ymd)"
  obtain cs where cs: "conditions rt c f dateTo = Inr cs"
    and p: "\<And>t. list_all (\<lambda>p. p t) cs = passes c f dateTo t"
    using conditions_passes [OF h, of c f] by blast
  let ?hits = "filter (\<lambda>r. passes c f dateTo (snd r)) (trips s)"
  let ?full = "order_by_startDate (if sortOrder = str ''asc'' then ASC else DESC) ?hits"
  have hits: "filter (\<lambda>r. list_all (\<lambda>p. p (snd r)) cs) (trips s) = ?hits" using p by simp
  have m: "mset ?full = mset ?hits" by (rule order_mset)
  have o: "if sortOrder = str ''asc'' then ascending ?full else descending ?full"
    by (rule order_direction)
  have v: "\<forall>page limit.
      \<bar>page\<bar> < 2 ^ 53 \<and> \<bar>limit\<bar> < 2 ^ 53 \<and> \<bar>(page - 1) * limit\<bar> < 2 ^ 53 \<longrightarrow>
      getTrips rt (Num (of_int page)) (Num (of_int limit)) c f dateTo sortOrder s =
        Inr ((if limit < 0 then id else take (nat limit))
               (drop (nat ((page - 1) * limit)) ?full), length ?hits)"
    using getTrips_safe [OF cs, of _ _ sortOrder s] hits by simp
  have i: "\<forall>r ymd. r \<in> set (trips s) \<and> calendar_date dateTo = Some ymd
              \<and> fst (tomorrow ymd) \<le> 9999 \<and> startsWith (startDate (snd r)) dateTo
              \<and> (c = [] \<or> category (snd r) = c) \<and> (f = [] \<or> f \<le> startDate (snd r)) \<longrightarrow>
              r \<in> set ?full"
  proof (intro allI impI)
    fix r ymd
    assume a: "r \<in> set (trips s) \<and> calendar_date dateTo = Some ymd
              \<and> fst (tomorrow ymd) \<le> 9999 \<and> startsWith (startDate (snd r)) dateTo
              \<and> (c = [] \<or> category (snd r) = c) \<and> (f = [] \<or> f \<le> startDate (snd r))"
    then have "passes c f dateTo (snd r)" using end_day_passes [of dateTo ymd "snd r" c f] by blast
    then have "r \<in> set ?hits" using a by simp
    then show "r \<in> set ?full" using m by (metis set_mset_mset)
  qed
  show "\<exists>full.
          mset full = mset ?hits
        \<and> (if sortOrder = str ''asc'' then ascending full else descending full)
        \<and> (\<forall>page limit.
              \<bar>page\<bar> < 2 ^ 53 \<and> \<bar>limit\<bar> < 2 ^ 53 \<and> \<bar>(page - 1) * limit\<bar> < 2 ^ 53 \<longrightarrow>
              getTrips rt (Num (of_int page)) (Num (of_int limit)) c f dateTo sortOrder s =
                Inr ((if limit < 0 then id else take (nat limit))
                       (drop (nat ((page - 1) * limit)) full), length ?hits))
        \<and> (\<forall>r ymd. r \<in> set (trips s) \<and> calendar_date dateTo = Some ymd
              \<and> fst (tomorrow ymd) \<le> 9999 \<and> startsWith (startDate (snd r)) dateTo
              \<and> (c = [] \<or> category (snd r) = c) \<and> (f = [] \<or> f \<le> startDate (snd r)) \<longrightarrow>
              r \<in> set full)"
    using m o v i by blast
next
  show "\<forall>ymd t. calendar_date dateTo = Some ymd \<and> fst (tomorrow ymd) \<le> 9999
          \<and> startsWith (startDate t) dateTo \<longrightarrow> passes [] [] dateTo t"
    using end_day_passes [of dateTo _ _ "[]" "[]"] by blast
next
  show "\<forall>t. startsWith (startDate t) (str ''2024-01-31'') \<longrightarrow>
          passes [] [] (str ''2024-01-31'') t"
    using end_day_passes [OF calendar_jan31 year_jan31] by blast
next
  assume "dateTo \<noteq> [] \<and> new_Date rt dateTo = None"
  then show "getTrips rt page' limit' c f dateTo sortOrder s = Inl (js_error ''Invalid time value'')"
    using conditions_invalid [of dateTo rt c f] getTrips_throws by blast
qed

lemma passes_samples:
  "passes [] [] (str ''2024-01-31'') jan31_trip" "passes [] [] (str ''2024-01-31'') sample_trip"
proof -
  have "startDate jan31_trip < str ''2024-02-01''" "startDate sample_trip < str ''2024-02-01''"
    by (simp_all add: jan31_trip_def sample_trip_def str_def)
  then show "passes [] [] (str ''2024-01-31'') jan31_trip"
    "passes [] [] (str ''2024-01-31'') sample_trip"
    by (simp_all only: passes_jan31)
qed

lemma nextDay_mar31: "nextDay stockholm (str ''2024-03-31'') = Inr (str ''2024-03-31'')"
  by code_simp

lemma nextDay_date_time: "nextDay stockholm (str ''2024-01-31T10:00'') = Inr (str ''2024-02-01'')"
  by code_simp

lemma new_Date_abc: "new_Date stockholm (str ''abc'') = None"
  by code_simp

lemma conditions_none: "conditions rt [] [] [] = Inr []"
  by (simp add: conditions_def)

lemma conditions_jan31:
  "conditions stockholm [] [] (str ''2024-01-31'') = Inr [\<lambda>t. startDate t < str ''2024-02-01'']"
proof -
  have "str ''2024-01-31'' \<noteq> []" by (simp add: str_def)
  then show ?thesis
    using nextDay_calendar [OF calendar_jan31 steady_stockholm_jan31] bound_jan31
    by (simp add: conditions_def)
qed

lemma conditions_mar31:
  "conditions stockholm [] [] (str ''2024-03-31'') = Inr [\<lambda>t. startDate t < str ''2024-03-31'']"
proof -
  have "str ''2024-03-31'' \<noteq> []" by (simp add: str_def)
  then show ?thesis using nextDay_mar31 by (simp add: conditions_def)
qed

lemma page_one: "\<bar>1 :: int\<bar> < 2 ^ 53" "\<bar>20 :: int\<bar> < 2 ^ 53" "\<bar>(1 - 1) * (20 :: int)\<bar> < 2 ^ 53"
  by simp_all

lemma jan31_asc:
  "getTrips stockholm (Num 1) (Num 20) [] [] (str ''2024-01-31'') (str ''asc'') two_trips =
     Inr ([(2, sample_trip), (1, jan31_trip)], 2)"
  using getTrips_safe [OF conditions_jan31 page_one, of "str ''asc''" two_trips]
  by (simp add: order_by_startDate_def two_trips_def empty_store_def jan31_trip_def
      sample_trip_def str_def)

lemma two_trips_asc:
  "getTrips stockholm (Num 1) (Num 20) [] [] [] (str ''asc'') two_trips =
     Inr ([(2, sample_trip), (1, jan31_trip)], 2)"
  using getTrips_safe [OF conditions_none page_one, of stockholm "str ''asc''" two_trips]
  by (simp add: order_by_startDate_def two_trips_def empty_store_def jan31_trip_def
      sample_trip_def str_def)

lemma two_trips_desc:
  "getTrips stockholm (Num 1) (Num 20) [] [] [] (str ''newest'') two_trips =
     Inr ([(1, jan31_trip), (2, sample_trip)], 2)"
  using getTrips_safe [OF conditions_none page_one, of stockholm "str ''newest''" two_trips]
  by (simp add: order_by_startDate_def two_trips_def empty_store_def jan31_trip_def
      sample_trip_def str_def)

lemma mar31_excluded:
  "getTrips stockholm (Num 1) (Num 20) [] [] (str ''2024-03-31'') (str ''desc'') march_trip =
     Inr ([], 0)"
  using getTrips_safe [OF conditions_mar31 page_one, of "str ''desc''" march_trip]
  by (simp add: order_by_startDate_def march_trip_def empty_store_def mar31_trip_def
      sample_trip_def str_def)

lemma huge_limit:
  "getTrips stockholm (Num 1) (Num (10 ^ 20)) [] [] [] (str ''desc'') two_trips = Inl mismatch"
  by (simp add: getTrips_def conditions_none limit_offset_def must_be_int_def Let_def)

theorem getTrips_page_witness:
  "(\<exists>full. mset full = mset [(1, jan31_trip), (2, sample_trip)] \<and> ascending full
      \<and> getTrips stockholm (Num 1) (Num 20) [] [] (str ''2024-01-31'') (str ''asc'') two_trips =
          Inr (full, 2)
      \<and> (1, jan31_trip) \<in> set full)
   \<and> getTrips stockholm (Num 1) (Num 20) [] [] (str ''2024-01-31'') (str ''asc'') two_trips =
       Inr ([(2, sample_trip), (1, jan31_trip)], 2)
   \<and> passes [] [] (str ''2024-01-31'') jan31_trip
   \<and> getTrips stockholm (Num 1) (Num 20) [] [] (str ''next week'') (str ''asc'') two_trips =
       Inl (js_error ''Invalid time value'')"
proof -
  let ?d = "str ''2024-01-31''"
  have hyp: "?d = [] \<or> (\<exists>ymd. calendar_date ?d = Some ymd \<and> steady stockholm ymd)"
    using calendar_jan31 steady_stockholm_jan31 by blast
  have hits: "filter (\<lambda>r. passes [] [] ?d (snd r)) (trips two_trips) =
      [(1, jan31_trip), (2, sample_trip)]"
    using passes_samples by (simp add: two_trips_def empty_store_def)
  have starts: "startsWith (startDate jan31_trip) ?d"
    by (simp add: jan31_trip_def startsWith_def)
  have bad: "str ''next week'' \<noteq> [] \<and> new_Date stockholm (str ''next week'') = None"
    by code_simp
  note th = getTrips_page [where dateTo = ?d and rt = stockholm and c = "[]" and f = "[]"
      and sortOrder = "str ''asc''" and s = two_trips]
  have "\<exists>full.
        mset full = mset (filter (\<lambda>r. passes [] [] ?d (snd r)) (trips two_trips))
      \<and> (if str ''asc'' = str ''asc'' then ascending full else descending full)
      \<and> (\<forall>page limit.
            \<bar>page\<bar> < 2 ^ 53 \<and> \<bar>limit\<bar> < 2 ^ 53 \<and> \<bar>(page - 1) * limit\<bar> < 2 ^ 53 \<longrightarrow>
            getTrips stockholm (Num (of_int page)) (Num (of_int limit)) [] [] ?d (str ''asc'')
                two_trips =
              Inr ((if limit < 0 then id else take (nat limit))
                     (drop (nat ((page - 1) * limit)) full),
                   length (filter (\<lambda>r. passes [] [] ?d (snd r)) (trips two_trips))))
      \<and> (\<forall>r ymd. r \<in> set (trips two_trips) \<and> calendar_date ?d = Some ymd
            \<and> fst (tomorrow ymd) \<le> 9999 \<and> startsWith (startDate (snd r)) ?d
            \<and> (([] :: jsstring) = [] \<or> category (snd r) = [])
            \<and> (([] :: jsstring) = [] \<or> [] \<le> startDate (snd r)) \<longrightarrow>
            r \<in> set full)" (is "\<exists>full. ?P full")
    by (rule mp [OF conjunct1 [OF th] hyp])
  then obtain full where all: "?P full" ..
  note m = all [THEN conjunct1]
    and o = all [THEN conjunct2, THEN conjunct1]
    and v = all [THEN conjunct2, THEN conjunct2, THEN conjunct1]
    and i = all [THEN conjunct2, THEN conjunct2, THEN conjunct2]
  have m': "mset full = mset [(1, jan31_trip), (2, sample_trip)]" using m hits by simp
  then have "size (mset full) = 2" by simp
  then have len: "length full = 2" by simp
  have "getTrips stockholm (Num (of_int 1)) (Num (of_int 20)) [] [] ?d (str ''asc'') two_trips =
      Inr ((if (20::int) < 0 then id else take (nat 20)) (drop (nat ((1 - 1) * 20)) full),
           length (filter (\<lambda>r. passes [] [] ?d (snd r)) (trips two_trips)))"
    using v [THEN spec, THEN spec, of 1 20] page_one by blast
  then have page: "getTrips stockholm (Num 1) (Num 20) [] [] ?d (str ''asc'') two_trips =
      Inr (full, 2)"
    using len hits by simp
  have "(1, jan31_trip) \<in> set (trips two_trips)" by (simp add: two_trips_def empty_store_def)
  then have mem: "(1, jan31_trip) \<in> set full"
    using i [THEN spec, THEN spec, of "(1, jan31_trip)" "(2024, 1, 31)"] calendar_jan31
      year_jan31 starts
    by simp
  have asc: "ascending full" using o by simp
  have thrown: "getTrips stockholm (Num 1) (Num 20) [] [] (str ''next week'') (str ''asc'') two_trips =
       Inl (js_error ''Invalid time value'')"
    using getTrips_page [where dateTo = "str ''next week''" and rt = stockholm and c = "[]"
        and f = "[]" and sortOrder = "str ''asc''" and s = two_trips and page' = "Num 1"
        and limit' = "Num 20", THEN conjunct2, THEN conjunct2, THEN conjunct2] bad
    by (rule mp)
  have first: "\<exists>full. mset full = mset [(1, jan31_trip), (2, sample_trip)] \<and> ascending full
      \<and> getTrips stockholm (Num 1) (Num 20) [] [] ?d (str ''asc'') two_trips = Inr (full, 2)
      \<and> (1, jan31_trip) \<in> set full"
    using m' asc page mem by blast
  show ?thesis
    by (rule conjI [OF first conjI [OF jan31_asc conjI [OF passes_samples(1) thrown]]])
qed

text \<open>
  C8, as the claim states it, fails: not every page, page size and filter combination gets
  a page. A \<open>dateTo\<close> that is no date makes \<open>toISOString\<close> throw, and \<open>getTrips\<close> throws with
  it. The end day is not always included: on Central European Time, with \<open>dateTo\<close>
  \<open>2024-03-31\<close>, the day the clocks are put forward, the bound is \<open>2024-03-31\<close> itself and the
  stored trip of that day is neither returned nor counted. And a page size of \<open>10^20\<close> is
  refused by the engine.
\<close>

theorem getTrips_no_page:
  "getTrips stockholm (Num 1) (Num 20) [] [] (str ''abc'') (str ''desc'') two_trips =
     Inl (js_error ''Invalid time value'')
   \<and> getTrips stockholm (Num 1) (Num 20) [] [] (str ''2024-03-31'') (str ''desc'') march_trip =
       Inr ([], 0)
   \<and> startDate mar31_trip = str ''2024-03-31''
   \<and> getTrips stockholm (Num 1) (Num (10 ^ 20)) [] [] [] (str ''desc'') two_trips =
       Inl mismatch"
proof -
  have "str ''abc'' \<noteq> []" by (simp add: str_def)
  then have "getTrips stockholm (Num 1) (Num 20) [] [] (str ''abc'') (str ''desc'') two_trips =
     Inl (js_error ''Invalid time value'')"
    using conditions_invalid [OF _ new_Date_abc] getTrips_throws by blast
  moreover have "startDate mar31_trip = str ''2024-03-31''" by (simp add: mar31_trip_def)
  ultimately show ?thesis using mar31_excluded huge_limit by blast
qed

text \<open>
  C10. Every sort order other than the string \<open>asc\<close> gives what \<open>desc\<close> gives. Whenever the
  conditions can be built and the engine takes the limit and the offset, the rows returned
  are cut, at the offset and with the limit, out of a rearrangement of all the stored trips
  that meet the conditions: a rearrangement in descending order of \<open>startDate\<close> for every sort
  order but \<open>asc\<close>, in ascending order for \<open>asc\<close> alone; the total is the number of stored
  trips that meet the conditions. The conditions do not depend on the sort order, and any
  two sort orders give the same total, or throw the same value.
\<close>

theorem sortOrder_default:
  "(sortOrder \<noteq> str ''asc'' \<longrightarrow>
      getTrips rt page limit c f dateTo sortOrder s =
        getTrips rt page limit c f dateTo (str ''desc'') s)
   \<and> (\<forall>cs n k. conditions rt c f dateTo = Inr cs \<and> must_be_int limit = Inr n
          \<and> must_be_int (num_mul (num_sub page (Num 1)) limit) = Inr k \<longrightarrow>
        (\<exists>full.
            mset full = mset (filter (\<lambda>r. list_all (\<lambda>p. p (snd r)) cs) (trips s))
          \<and> (if sortOrder = str ''asc'' then ascending full else descending full)
          \<and> getTrips rt page limit c f dateTo sortOrder s =
              Inr ((if n < 0 then id else take (nat n)) (drop (nat k) full),
                   length (filter (\<lambda>r. list_all (\<lambda>p. p (snd r)) cs) (trips s)))))
   \<and> map_sum id snd (getTrips rt page limit c f dateTo sortOrder s) =
       map_sum id snd (getTrips rt page limit c f dateTo sortOrder' s)"
proof (intro conjI allI impI)
  assume "sortOrder \<noteq> str ''asc''"
  moreover have "str ''desc'' \<noteq> str ''asc''" by (simp add: str_def)
  ultimately show "getTrips rt page limit c f dateTo sortOrder s =
        getTrips rt page limit c f dateTo (str ''desc'') s"
    by (simp add: getTrips_def Let_def)
next
  fix cs n k
  assume a: "conditions rt c f dateTo = Inr cs \<and> must_be_int limit = Inr n
          \<and> must_be_int (num_mul (num_sub page (Num 1)) limit) = Inr k"
  let ?hits = "filter (\<lambda>r. list_all (\<lambda>p. p (snd r)) cs) (trips s)"
  let ?full = "order_by_startDate (if sortOrder = str ''asc'' then ASC else DESC) ?hits"
  have m: "mset ?full = mset ?hits" by (rule order_mset)
  have o: "if sortOrder = str ''asc'' then ascending ?full else descending ?full"
    by (rule order_direction)
  have v: "getTrips rt page limit c f dateTo sortOrder s =
      Inr ((if n < 0 then id else take (nat n)) (drop (nat k) ?full), length ?hits)"
    by (rule getTrips_rows [OF conjunct1 [OF a] conjunct1 [OF conjunct2 [OF a]]
          conjunct2 [OF conjunct2 [OF a]]])
  show "\<exists>full. mset full = mset ?hits
          \<and> (if sortOrder = str ''asc'' then ascending full else descending full)
          \<and> getTrips rt page limit c f dateTo sortOrder s =
              Inr ((if n < 0 then id else take (nat n)) (drop (nat k) full), length ?hits)"
    using m o v by blast
next
  show "map_sum id snd (getTrips rt page limit c f dateTo sortOrder s) =
       map_sum id snd (getTrips rt page limit c f dateTo sortOrder' s)"
    by (simp add: getTrips_def limit_offset_def Let_def split: sum.splits)
qed

theorem sortOrder_default_witness:
  "getTrips stockholm (Num 1) (Num 20) [] [] [] (str ''newest'') two_trips =
     getTrips stockholm (Num 1) (Num 20) [] [] [] (str ''desc'') two_trips
   \<and> getTrips stockholm (Num 1) (Num 20) [] [] [] (str ''newest'') two_trips =
       Inr ([(1, jan31_trip), (2, sample_trip)], 2)
   \<and> getTrips stockholm (Num 1) (Num 20) [] [] [] (str ''asc'') two_trips =
       Inr ([(2, sample_trip), (1, jan31_trip)], 2)
   \<and> descending [(1, jan31_trip), (2, sample_trip)]
   \<and> ascending [(2, sample_trip), (1, jan31_trip)]
   \<and> startDate sample_trip < startDate jan31_trip"
proof -
  have other: "str ''newest'' \<noteq> str ''asc''" by (simp add: str_def)
  have same: "getTrips stockholm (Num 1) (Num 20) [] [] [] (str ''newest'') two_trips =
      getTrips stockholm (Num 1) (Num 20) [] [] [] (str ''desc'') two_trips"
    using sortOrder_default [where sortOrder = "str ''newest''" and rt = stockholm
        and page = "Num 1" and limit = "Num 20" and c = "[]" and f = "[]" and dateTo = "[]"
        and s = two_trips] other
    by simp
  have lt: "startDate sample_trip < startDate jan31_trip"
    by (simp add: jan31_trip_def sample_trip_def str_def)
  have d: "descending [(1, jan31_trip), (2, sample_trip)]"
    using lt by (simp add: descending_def)
  have a: "ascending [(2, sample_trip), (1, jan31_trip)]"
    using lt by (simp add: ascending_def)
  show ?thesis using same two_trips_desc two_trips_asc d a lt by simp
qed

section \<open>Properties of the record parser\<close>

lemmas text_defs = cleanText_def trim_def trimStart_def remove_nul_def strip_bom_def is_ws_def
  startsWith_def or_default_def replace_first_def
lemmas number_defs = parseInt_def parseFloat_def sign_prefix_def is_digit_def decimal_def
  exponent_part_def scale10_def signed_def hexadecimal_def hex_digit_def


lemma kw_at_Nil: "\<not> kw_at []"
  by (simp add: kw_at_def startsWith_def str_def)

lemma split_before_nonempty: "split_before s \<noteq> []"
  by (induction s) (auto split: list.splits)

lemma concat_split_before: "concat (split_before s) = s"
  by (induction s) (auto split: list.splits)

lemma well_cut_split_before: "well_cut (split_before s)"
proof (induction s)
  case Nil
  then show ?case by simp
next
  case (Cons c cs)
  obtain r rs where rrs: "split_before cs = r # rs"
    using split_before_nonempty [of cs] by (cases "split_before cs") auto
  have cc: "concat (r # rs) = cs" using concat_split_before [of cs] rrs by simp
  have ih: "well_cut (r # rs)" using Cons.IH rrs by simp
  show ?case
  proof (cases "kw_at cs")
    case True
    then show ?thesis using rrs cc ih by simp
  next
    case False
    have inner: "\<forall>j \<in> {1..<length (c # r)}. \<not> kw_at (drop j (concat ((c # r) # rs)))"
    proof
      fix j assume j: "j \<in> {1..<length (c # r)}"
      show "\<not> kw_at (drop j (concat ((c # r) # rs)))"
      proof (cases "j = 1")
        case True
        then show ?thesis using False cc by simp
      next
        case False
        then obtain j' where j': "j = Suc j'" "j' \<in> {1..<length r}"
          using j by (cases j) auto
        then show ?thesis using ih by simp
      qed
    qed
    have rest: "(rs = [] \<or> (c # r \<noteq> [] \<and> kw_at (concat rs))) \<and> well_cut rs"
      using ih by auto
    have "split_before (c # cs) = (c # r) # rs" using rrs False by simp
    then show ?thesis using inner rest by (simp del: split_before.simps concat.simps)
  qed
qed

lemma search_category_Some:
  "search_category s = Some k \<Longrightarrow>
     k \<le> length s \<and> kw_at (drop k s) \<and> (\<forall>j < k. \<not> kw_at (drop j s))"
proof (induction s arbitrary: k)
  case Nil
  then show ?case by simp
next
  case (Cons c cs)
  show ?case
  proof (cases "kw_at (c # cs)")
    case True
    then show ?thesis using Cons.prems by simp
  next
    case False
    then obtain k' where k': "search_category cs = Some k'" "k = Suc k'"
      using Cons.prems by auto
    have ih: "k' \<le> length cs \<and> kw_at (drop k' cs) \<and> (\<forall>j < k'. \<not> kw_at (drop j cs))"
      using Cons.IH [OF k'(1)] .
    have "\<forall>j < k. \<not> kw_at (drop j (c # cs))"
    proof (intro allI impI)
      fix j assume "j < k"
      then show "\<not> kw_at (drop j (c # cs))"
        using False ih k'(2) by (cases j) auto
    qed
    then show ?thesis using ih k'(2) by simp
  qed
qed

lemma search_category_None: "search_category s = None \<Longrightarrow> \<not> kw_at (drop j s)"
proof (induction s arbitrary: j)
  case Nil
  then show ?case using kw_at_Nil by simp
next
  case (Cons c cs)
  then show ?case by (cases j) (auto split: if_splits)
qed

lemma legacy_branch:
  assumes "length (split_lines (preclean content)) \<le> 2"
  shows "parseCSVData content flag =
     (case search_category (preclean content) of
        None \<Rightarrow> []
      | Some k \<Rightarrow> results (foldl (row_step flag) parse_start
                            (enumerate 0 (split_before (drop k (preclean content))))))"
  using assms by (simp add: parseCSVData_def parse_run_def Let_def parse_start_def split: option.splits)


lemma split_on_nonempty: "split_on sep s \<noteq> []"
  by (induction s) (auto split: list.splits)

lemma row_step_decoded:
  assumes "14 \<le> length (split_on 59 (trim raw))"
  shows "row_step flag st (i, raw) = validate_row i (decode_row flag (split_on 59 (trim raw))) st"
proof -
  have "trim raw \<noteq> []" using assms by auto
  then show ?thesis using assms by (simp add: row_step_def Let_def)
qed

lemma row_step_short:
  assumes "length (split_on 59 (trim raw)) < 14"
  shows "row_step flag st (i, raw) = st"
  using assms by (simp add: row_step_def Let_def)

lemma validate_row_rules:
  assumes "category t \<noteq> []" "startDate t \<noteq> []"
  shows "(accepted_by_rules t \<longrightarrow> validate_row i t st = st\<lparr>results := results st @ [t]\<rparr>)
     \<and> (\<not> accepted_by_rules t \<longrightarrow>
          (\<exists>e. validate_row i t st = reject e st))"
  using assms by (auto simp add: validate_row_def accepted_by_rules_def)

lemma reject_fields:
  "results (reject e st) = results st \<and> skippedLines (reject e st) = skippedLines st + 1
   \<and> row_errors (reject e st) = row_errors st @ [e]"
  by (simp add: reject_def)

lemma row_accept_iff:
  assumes "14 \<le> length (split_on 59 (trim raw))"
    "trip = decode_row flag (split_on 59 (trim raw))" "category trip \<noteq> []" "startDate trip \<noteq> []"
  shows "(results (row_step flag st (i, raw)) = results st @ [trip]
            \<and> skippedLines (row_step flag st (i, raw)) = skippedLines st
          \<longleftrightarrow> accepted_by_rules trip)
     \<and> (results (row_step flag st (i, raw)) = results st
            \<and> skippedLines (row_step flag st (i, raw)) = skippedLines st + 1
          \<longleftrightarrow> \<not> accepted_by_rules trip)"
proof (cases "accepted_by_rules trip")
  case True
  then have "row_step flag st (i, raw) = st\<lparr>results := results st @ [trip]\<rparr>"
    using row_step_decoded [OF assms(1), of flag st i] validate_row_rules [OF assms(3,4), of i st]
      assms(2) by simp
  then show ?thesis using True by simp
next
  case False
  have "\<exists>e. validate_row i trip st = reject e st"
    using validate_row_rules [OF assms(3,4), of i st] False by blast
  then obtain e where "validate_row i trip st = reject e st" by blast
  then have "row_step flag st (i, raw) = reject e st"
    using row_step_decoded [OF assms(1), of flag st i] assms(2) by simp
  then show ?thesis using False by (simp add: reject_fields)
qed

lemma decode_sample_values:
  "decode_row flag (sample_values oe d) =
     sample_trip\<lparr>odometerEnd := parseInt (cleanText (or_default (str oe) (str ''0''))),
                 distance := parseFloat (replace_first 44 46 (cleanText (or_default (str d) (str ''0''))))\<rparr>"
  by (simp add: decode_row_def sample_values_def sample_trip_def
      cleanText_def trim_def remove_nul_def strip_bom_def is_ws_def or_default_def
      parseInt_def trimStart_def sign_prefix_def is_digit_def decimal_def signed_def startsWith_def
      str_def)

lemma field_150: "parseInt (cleanText (or_default (str ''150'') (str ''0''))) = Num 150"
  by (simp add: text_defs number_defs str_def)

lemma field_50: "parseInt (cleanText (or_default (str ''50'') (str ''0''))) = Num 50"
  by (simp add: text_defs number_defs str_def)

lemma field_50_0: "parseFloat (replace_first 44 46 (cleanText (or_default (str ''50.0'') (str ''0'')))) = Num 50"
  by (simp add: text_defs number_defs str_def)

lemma field_10_0: "parseFloat (replace_first 44 46 (cleanText (or_default (str ''10.0'') (str ''0'')))) = Num 10"
  by (simp add: text_defs number_defs str_def)

lemma field_0: "parseFloat (replace_first 44 46 (cleanText (or_default (str ''0'') (str ''0'')))) = Num 0"
  by (simp add: text_defs number_defs str_def)

lemma values_sample_row: "split_on 59 (trim sample_row) = sample_values ''150'' ''50.0''"
  by (simp add: sample_row_def sample_values_def trim_def is_ws_def str_def)

lemma values_reversed_positive: "split_on 59 (trim reversed_positive) = sample_values ''50'' ''10.0''"
  by (simp add: reversed_positive_def sample_values_def trim_def is_ws_def str_def)

lemma values_reversed_zero: "split_on 59 (trim reversed_zero) = sample_values ''50'' ''0''"
  by (simp add: reversed_zero_def sample_values_def trim_def is_ws_def str_def)

lemma length_sample_values: "length (sample_values oe d) = 14"
  by (simp add: sample_values_def)

lemma row_sample: "row_step flag st (i, sample_row) = st\<lparr>results := results st @ [sample_trip]\<rparr>"
proof -
  have "decode_row flag (sample_values ''150'' ''50.0'') = sample_trip"
    using decode_sample_values [of flag "''150''" "''50.0''"] field_150 field_50_0
    by (simp add: sample_trip_def)
  moreover have "validate_row i sample_trip st = st\<lparr>results := results st @ [sample_trip]\<rparr>"
    by (simp add: validate_row_def sample_trip_def str_def)
  ultimately show ?thesis
    using row_step_decoded [of sample_row flag st i] values_sample_row length_sample_values
    by simp
qed

lemma row_reversed_positive:
  "row_step False st (i, reversed_positive) = reject (InvalidOdometer i) st"
proof -
  have "decode_row False (sample_values ''50'' ''10.0'') =
      sample_trip\<lparr>odometerEnd := Num 50, distance := Num 10\<rparr>"
    using decode_sample_values [of False "''50''" "''10.0''"] field_50 field_10_0 by simp
  moreover have "validate_row i (sample_trip\<lparr>odometerEnd := Num 50, distance := Num 10\<rparr>) st
      = reject (InvalidOdometer i) st"
    by (simp add: validate_row_def sample_trip_def str_def)
  ultimately show ?thesis
    using row_step_decoded [of reversed_positive False st i] values_reversed_positive
      length_sample_values
    by simp
qed

lemma row_reversed_zero:
  "row_step False st (i, reversed_zero) =
     st\<lparr>results := results st @ [sample_trip\<lparr>odometerEnd := Num 50, distance := Num 0\<rparr>]\<rparr>"
proof -
  have "decode_row False (sample_values ''50'' ''0'') =
      sample_trip\<lparr>odometerEnd := Num 50, distance := Num 0\<rparr>"
    using decode_sample_values [of False "''50''" "''0''"] field_50 field_0 by simp
  moreover have "validate_row i (sample_trip\<lparr>odometerEnd := Num 50, distance := Num 0\<rparr>) st
      = st\<lparr>results := results st @ [sample_trip\<lparr>odometerEnd := Num 50, distance := Num 0\<rparr>]\<rparr>"
    by (simp add: validate_row_def sample_trip_def str_def)
  ultimately show ?thesis
    using row_step_decoded [of reversed_zero False st i] values_reversed_zero
      length_sample_values
    by simp
qed

lemma preclean_legacy_sample: "preclean legacy_sample = legacy_sample"
  by (simp add: preclean_def legacy_sample_def remove_nul_def strip_bom_def str_def)

lemma lines_legacy_sample: "split_lines legacy_sample = [legacy_sample]"
  by (simp add: legacy_sample_def str_def)

lemma search_legacy_sample: "search_category legacy_sample = Some 13"
  by (simp add: legacy_sample_def kw_at_def startsWith_def str_def)

lemma drop_legacy_sample: "drop 13 legacy_sample = sample_row"
  by (simp add: legacy_sample_def sample_row_def str_def)

lemma rows_legacy_sample: "split_before sample_row = [sample_row]"
  by (simp add: sample_row_def kw_at_def startsWith_def str_def)

lemma parse_legacy_sample: "parseCSVData legacy_sample flag = [sample_trip]"
  using legacy_branch [of legacy_sample flag] preclean_legacy_sample lines_legacy_sample
    search_legacy_sample drop_legacy_sample rows_legacy_sample row_sample [of flag parse_start 0]
  by (simp add: enumerate_eq_zip parse_start_def)

lemma short_input_run:
  "split_lines (preclean short_input) = [str ''Header'', str ''Privat;2024-01-01;100'', []]
   \<and> length (split_on 59 (trim (str ''Privat;2024-01-01;100''))) = 3
   \<and> parse_run short_input False = parse_start"
  by (simp add: short_input_def preclean_def remove_nul_def strip_bom_def parse_run_def
      row_step_def trim_def is_ws_def enumerate_eq_zip upt_rec str_def)


lemma row_step_cases:
  "row_step flag st (i, raw) = st \<or> (\<exists>e. row_step flag st (i, raw) = reject e st)
   \<or> (\<exists>t. row_step flag st (i, raw) = st\<lparr>results := results st @ [t]\<rparr>)"
  by (auto simp add: row_step_def validate_row_def Let_def)

lemma row_step_tally:
  assumes "skippedLines st = length (row_errors st)"
  shows "skippedLines (row_step flag st ir) = length (row_errors (row_step flag st ir))"
proof -
  obtain i raw where ir: "ir = (i, raw)" by (cases ir)
  show ?thesis using row_step_cases [of flag st i raw] assms ir by (auto simp add: reject_def)
qed

lemma foldl_row_step_tally:
  "skippedLines st = length (row_errors st) \<Longrightarrow>
     skippedLines (foldl (row_step flag) st rows) = length (row_errors (foldl (row_step flag) st rows))"
  by (induction rows arbitrary: st) (simp_all add: row_step_tally)

lemma parse_run_tally:
  "skippedLines (parse_run content flag) = length (row_errors (parse_run content flag))"
proof -
  have start: "skippedLines parse_start = length (row_errors parse_start)"
    by (simp add: parse_start_def)
  show ?thesis
    using foldl_row_step_tally [OF start]
    by (simp add: parse_run_def Let_def start split: option.splits)
qed

lemma results_row_step:
  "results (row_step flag st (i, raw)) =
     results st @ (if accepted_row flag raw then [decode_row flag (split_on 59 (trim raw))] else [])"
proof (cases "14 \<le> length (split_on 59 (trim raw))")
  case False
  then show ?thesis using row_step_short [of raw flag st i] by (simp add: accepted_row_def Let_def)
next
  case True
  let ?t = "decode_row flag (split_on 59 (trim raw))"
  have step: "row_step flag st (i, raw) = validate_row i ?t st" using row_step_decoded [OF True] .
  show ?thesis
  proof (cases "category ?t \<noteq> [] \<and> startDate ?t \<noteq> []")
    case False
    then show ?thesis using step by (auto simp add: accepted_row_def Let_def validate_row_def reject_def)
  next
    case req: True
    then show ?thesis
      using step True validate_row_rules [of ?t i st] 
      by (cases "accepted_by_rules ?t") (auto simp add: accepted_row_def Let_def reject_def)
  qed
qed

lemma results_foldl_row_step:
  "results (foldl (row_step flag) st rows) =
     results st @ map (\<lambda>raw. decode_row flag (split_on 59 (trim raw)))
                    (filter (accepted_row flag) (map snd rows))"
proof (induction rows arbitrary: st)
  case Nil
  then show ?case by simp
next
  case (Cons r rows)
  obtain i raw where r: "r = (i, raw)" by (cases r)
  show ?case using Cons [of "row_step flag st (i, raw)"] r results_row_step [of flag st i raw]
    by simp
qed

lemma standard_branch:
  assumes "2 < length (split_lines (preclean content))"
  shows "parseCSVData content flag =
     map (\<lambda>raw. decode_row flag (split_on 59 (trim raw)))
       (filter (accepted_row flag) (tl (split_lines (preclean content))))"
  using assms results_foldl_row_step [of flag parse_start]
  by (simp add: parseCSVData_def parse_run_def Let_def parse_start_def)

lemma legacy_rows:
  assumes "length (split_lines (preclean content)) \<le> 2"
    "search_category (preclean content) = Some k"
  shows "parseCSVData content flag =
     map (\<lambda>raw. decode_row flag (split_on 59 (trim raw)))
       (filter (accepted_row flag) (split_before (drop k (preclean content))))"
  using assms results_foldl_row_step [of flag parse_start]
  by (simp add: parseCSVData_def parse_run_def Let_def parse_start_def)

lemma lines_standard_sample:
  "split_lines (preclean standard_sample) = [str ''Header'', sample_row, reversed_positive, []]"
  by (simp add: standard_sample_def sample_row_def reversed_positive_def preclean_def
      remove_nul_def strip_bom_def str_def)

lemma accepted_sample_row: "accepted_row flag sample_row"
proof -
  have "decode_row flag (sample_values ''150'' ''50.0'') = sample_trip"
    using decode_sample_values [of flag "''150''" "''50.0''"] field_150 field_50_0
    by (simp add: sample_trip_def)
  moreover have "category sample_trip \<noteq> [] \<and> startDate sample_trip \<noteq> []
      \<and> accepted_by_rules sample_trip"
    by (simp add: accepted_by_rules_def sample_trip_def str_def)
  ultimately show ?thesis
    using values_sample_row length_sample_values by (simp add: accepted_row_def)
qed

lemma rejected_reversed_positive: "\<not> accepted_row flag reversed_positive"
proof -
  have "decode_row flag (sample_values ''50'' ''10.0'') =
      sample_trip\<lparr>odometerEnd := Num 50, distance := Num 10\<rparr>"
    using decode_sample_values [of flag "''50''" "''10.0''"] field_50 field_10_0 by simp
  moreover have "\<not> accepted_by_rules (sample_trip\<lparr>odometerEnd := Num 50, distance := Num 10\<rparr>)"
    by (simp add: accepted_by_rules_def sample_trip_def)
  ultimately show ?thesis
    using values_reversed_positive by (simp add: accepted_row_def)
qed

lemma rejected_blank: "\<not> accepted_row flag []"
  by (simp add: accepted_row_def trim_def trimStart_def)

lemma decode_sample_row: "decode_row flag (split_on 59 (trim sample_row)) = sample_trip"
  using decode_sample_values [of flag "''150''" "''50.0''"] field_150 field_50_0 values_sample_row
  by (simp add: sample_trip_def)

text \<open>
  C5. For a row with at least fourteen fields whose decoded category and start date are not
  empty, the row is accepted, that is appended to the results with the skip counter
  untouched, if and only if neither rejection rule applies to the decoded trip, and it is
  skipped and counted if and only if one applies. The row with odometer 100 to 50 and
  distance 10.0 is rejected by the odometer rule; the same row with distance 0 is accepted.
  What the parser returns is the decoded trips of exactly the accepted rows, in their order:
  of the lines after the first when the content has more than two lines, and of the pieces
  from the first category on otherwise.
\<close>

theorem row_acceptance:
  "(14 \<le> length (split_on 59 (trim raw)) \<and> trip = decode_row flag (split_on 59 (trim raw))
      \<and> category trip \<noteq> [] \<and> startDate trip \<noteq> [] \<longrightarrow>
      (results (row_step flag st (i, raw)) = results st @ [trip]
         \<and> skippedLines (row_step flag st (i, raw)) = skippedLines st
       \<longleftrightarrow> accepted_by_rules trip)
      \<and> (results (row_step flag st (i, raw)) = results st
           \<and> skippedLines (row_step flag st (i, raw)) = skippedLines st + 1
         \<longleftrightarrow> \<not> accepted_by_rules trip))
   \<and> row_step False st (i, reversed_positive) = reject (InvalidOdometer i) st
   \<and> row_step False st (i, reversed_zero) =
       st\<lparr>results := results st @ [sample_trip\<lparr>odometerEnd := Num 50, distance := Num 0\<rparr>]\<rparr>
   \<and> (2 < length (split_lines (preclean content)) \<longrightarrow>
        parseCSVData content flag =
          map (\<lambda>raw. decode_row flag (split_on 59 (trim raw)))
            (filter (accepted_row flag) (tl (split_lines (preclean content)))))
   \<and> (length (split_lines (preclean content)) \<le> 2
        \<and> search_category (preclean content) = Some k \<longrightarrow>
        parseCSVData content flag =
          map (\<lambda>raw. decode_row flag (split_on 59 (trim raw)))
            (filter (accepted_row flag) (split_before (drop k (preclean content)))))"
proof -
  have one: "14 \<le> length (split_on 59 (trim raw)) \<and> trip = decode_row flag (split_on 59 (trim raw))
      \<and> category trip \<noteq> [] \<and> startDate trip \<noteq> [] \<longrightarrow>
      (results (row_step flag st (i, raw)) = results st @ [trip]
         \<and> skippedLines (row_step flag st (i, raw)) = skippedLines st
       \<longleftrightarrow> accepted_by_rules trip)
      \<and> (results (row_step flag st (i, raw)) = results st
           \<and> skippedLines (row_step flag st (i, raw)) = skippedLines st + 1
         \<longleftrightarrow> \<not> accepted_by_rules trip)"
    using row_accept_iff [of raw trip flag st i] by blast
  have four: "2 < length (split_lines (preclean content)) \<longrightarrow>
        parseCSVData content flag =
          map (\<lambda>raw. decode_row flag (split_on 59 (trim raw)))
            (filter (accepted_row flag) (tl (split_lines (preclean content))))"
    using standard_branch [of content flag] by blast
  have five: "length (split_lines (preclean content)) \<le> 2
        \<and> search_category (preclean content) = Some k \<longrightarrow>
        parseCSVData content flag =
          map (\<lambda>raw. decode_row flag (split_on 59 (trim raw)))
            (filter (accepted_row flag) (split_before (drop k (preclean content))))"
    using legacy_rows [of content k flag] by blast
  show ?thesis
    by (rule conjI [OF one conjI [OF row_reversed_positive conjI [OF row_reversed_zero
          conjI [OF four five]]]])
qed

theorem row_acceptance_witness:
  "results (row_step False parse_start (1, sample_row)) = [sample_trip]
   \<and> skippedLines (row_step False parse_start (1, sample_row)) = 0
   \<and> split_lines (preclean standard_sample) = [str ''Header'', sample_row, reversed_positive, []]
   \<and> parseCSVData standard_sample False = [sample_trip]"
proof -
  have fields: "14 \<le> length (split_on 59 (trim sample_row))"
    using values_sample_row length_sample_values by simp
  have decoded: "sample_trip = decode_row False (split_on 59 (trim sample_row))"
    using decode_sample_values [of False "''150''" "''50.0''"] field_150 field_50_0
      values_sample_row
    by (simp add: sample_trip_def)
  have required: "category sample_trip \<noteq> [] \<and> startDate sample_trip \<noteq> []"
    by (simp add: sample_trip_def str_def)
  have rules: "accepted_by_rules sample_trip"
    by (simp add: accepted_by_rules_def sample_trip_def)
  note th = row_acceptance [where raw = sample_row and trip = sample_trip and flag = False
      and st = parse_start and i = 1 and content = standard_sample]
  have row: "results (row_step False parse_start (1, sample_row)) = [sample_trip]
      \<and> skippedLines (row_step False parse_start (1, sample_row)) = 0"
    using th fields decoded required rules by (simp add: parse_start_def)
  have many: "2 < length (split_lines (preclean standard_sample))"
    using lines_standard_sample by simp
  have "parseCSVData standard_sample False =
      map (\<lambda>raw. decode_row False (split_on 59 (trim raw)))
        (filter (accepted_row False) (tl (split_lines (preclean standard_sample))))"
    using th many by blast
  then have whole: "parseCSVData standard_sample False = [sample_trip]"
    using lines_standard_sample accepted_sample_row [of False]
      rejected_reversed_positive [of False] rejected_blank [of False] decode_sample_row [of False]
    by simp
  show ?thesis using row lines_standard_sample whole by simp
qed

text \<open>
  C6. When the cleaned content has at most two lines, the result is what the row loop makes
  of the pieces of the content from the first occurrence of \<open>Privat;\<close>, \<open>Arbete;\<close> or
  \<open>Okategoriserat;\<close> on, and nothing if there is no occurrence. The search returns the first
  occurrence; the pieces put together give back the text, no piece holds an occurrence after
  its first character, and every piece after the first starts at one. The sample input
  gives exactly one trip, with category \<open>Privat\<close> and distance 50.
\<close>

theorem legacy_format:
  "(length (split_lines (preclean content)) \<le> 2 \<longrightarrow>
      parseCSVData content flag =
        (case search_category (preclean content) of
           None \<Rightarrow> []
         | Some k \<Rightarrow> results (foldl (row_step flag) parse_start
                               (enumerate 0 (split_before (drop k (preclean content)))))))
   \<and> (search_category s = None \<longrightarrow> (\<forall>j. \<not> kw_at (drop j s)))
   \<and> (search_category s = Some k \<longrightarrow>
        k \<le> length s \<and> kw_at (drop k s) \<and> (\<forall>j < k. \<not> kw_at (drop j s)))
   \<and> concat (split_before s) = s \<and> well_cut (split_before s)
   \<and> parseCSVData legacy_sample flag = [sample_trip]
   \<and> category sample_trip = str ''Privat'' \<and> distance sample_trip = Num 50"
  using legacy_branch [of content flag] search_category_None [of s]
    search_category_Some [of s k] concat_split_before [of s] well_cut_split_before [of s]
    parse_legacy_sample [of flag]
  by (simp add: sample_trip_def)

theorem legacy_format_witness:
  "search_category legacy_sample = Some 13 \<and> kw_at (drop 13 legacy_sample)
   \<and> parseCSVData legacy_sample False =
       results (foldl (row_step False) parse_start
                  (enumerate 0 (split_before (drop 13 (preclean legacy_sample)))))"
  using legacy_format [of legacy_sample False legacy_sample 13]
    preclean_legacy_sample lines_legacy_sample search_legacy_sample
  by simp

text \<open>
  C9, as the claim states it, fails: a row with fewer than fourteen fields is not counted.
  The input has three lines, its one data row has three fields, and the parser ends with
  the skip counter at zero; the row is in no tally.
\<close>

theorem short_row_not_counted:
  "split_lines (preclean short_input) = [str ''Header'', str ''Privat;2024-01-01;100'', []]
   \<and> length (split_on 59 (trim (str ''Privat;2024-01-01;100''))) = 3
   \<and> skippedLines (parse_run short_input False) = 0
   \<and> row_errors (parse_run short_input False) = []
   \<and> parseCSVData short_input False = []"
  using short_input_run by (simp add: parseCSVData_def parse_start_def)

text \<open>
  C9, amended. The parser returns the accepted trips alone; the tally of skipped rows stays
  in the function, where it is the number of messages collected for the log. A row with
  fewer than fourteen fields is skipped without a trace: it changes neither the results nor
  the tally. Every row either leaves the state alone, or is rejected and counted, or is
  accepted; no row stops the parser, which has a result for every content.
\<close>

theorem malformed_rows:
  "(length (split_on 59 (trim raw)) < 14 \<longrightarrow> row_step flag st (i, raw) = st)
   \<and> (row_step flag st (i, raw) = st \<or> (\<exists>e. row_step flag st (i, raw) = reject e st)
       \<or> (\<exists>t. row_step flag st (i, raw) = st\<lparr>results := results st @ [t]\<rparr>))
   \<and> parseCSVData content flag = results (parse_run content flag)
   \<and> skippedLines (parse_run content flag) = length (row_errors (parse_run content flag))"
  using row_step_short [of raw flag st i] row_step_cases [of flag st i raw]
    parse_run_tally [of content flag]
  by (simp add: parseCSVData_def)

theorem malformed_rows_witness:
  "row_step False parse_start (1, str ''Privat;2024-01-01;100'') = parse_start"
proof -
  have "length (split_on 59 (trim (str ''Privat;2024-01-01;100''))) < 14"
    using short_input_run by simp
  then show ?thesis
    using malformed_rows [of "str ''Privat;2024-01-01;100''" False parse_start 1] by simp
qed

section \<open>Properties of the encoding detector\<close>

lemmas decoder_defs = decodeUpload_def TextDecoder_decode_def get_encoding_def run_decoder_def
  drop_mark_def strip_bom_def utf8_start_def utf16_unit_def windows1252_def

lemma nonfatal_decode:
  "get_encoding label \<noteq> None \<Longrightarrow> \<exists>t. TextDecoder_decode label False input = Inr t"
  by (auto simp add: TextDecoder_decode_def Let_def)

lemma decodeUpload_total: "\<exists>t. decodeUpload b = Inr t"
proof -
  have known: "get_encoding ''utf-16le'' \<noteq> None" "get_encoding ''utf-16be'' \<noteq> None"
    "get_encoding ''utf-8'' \<noteq> None" "get_encoding ''iso-8859-1'' \<noteq> None"
    by (simp_all add: get_encoding_def)
  show ?thesis
    using nonfatal_decode [OF known(1), of "drop 2 b"] nonfatal_decode [OF known(2), of "drop 2 b"]
      nonfatal_decode [OF known(3), of "drop 3 b"] nonfatal_decode [OF known(4), of b]
    by (auto simp add: decodeUpload_def split: sum.splits)
qed

lemma decodeUpload_no_mark:
  assumes "take 2 b \<noteq> [0xFF, 0xFE]" "take 2 b \<noteq> [0xFE, 0xFF]" "take 3 b \<noteq> [0xEF, 0xBB, 0xBF]"
  shows "decodeUpload b =
     (case TextDecoder_decode ''utf-8'' True b of
        Inr t \<Rightarrow> Inr t
      | Inl e \<Rightarrow> TextDecoder_decode ''iso-8859-1'' False b)"
proof -
  have "get_encoding ''iso-8859-1'' \<noteq> None" by (simp add: get_encoding_def)
  then obtain t where "TextDecoder_decode ''iso-8859-1'' False b = Inr t"
    using nonfatal_decode by blast
  then show ?thesis using assms by (simp add: decodeUpload_def split: sum.splits)
qed

text \<open>
  C7. The detector tries the marks in order: \<open>FF FE\<close> decodes the rest as UTF-16LE, \<open>FE FF\<close>
  the rest as UTF-16BE, \<open>EF BB BF\<close> the rest as UTF-8; without a mark it returns what strict
  UTF-8 decoding gives and, when that throws, what the decoder labelled \<open>iso-8859-1\<close> gives,
  with the decoder labelled \<open>windows-1252\<close> behind it. It returns text for every byte
  sequence.
\<close>

theorem encoding_detection:
  "(take 2 b = [0xFF, 0xFE] \<longrightarrow>
      decodeUpload b = TextDecoder_decode ''utf-16le'' False (drop 2 b))
   \<and> (take 2 b = [0xFE, 0xFF] \<longrightarrow>
      decodeUpload b = TextDecoder_decode ''utf-16be'' False (drop 2 b))
   \<and> (take 3 b = [0xEF, 0xBB, 0xBF] \<longrightarrow>
      decodeUpload b = TextDecoder_decode ''utf-8'' False (drop 3 b))
   \<and> (take 2 b \<noteq> [0xFF, 0xFE] \<and> take 2 b \<noteq> [0xFE, 0xFF] \<and> take 3 b \<noteq> [0xEF, 0xBB, 0xBF] \<longrightarrow>
      decodeUpload b =
        (case TextDecoder_decode ''utf-8'' True b of
           Inr t \<Rightarrow> Inr t
         | Inl e1 \<Rightarrow>
             (case TextDecoder_decode ''iso-8859-1'' False b of
                Inr t \<Rightarrow> Inr t
              | Inl e2 \<Rightarrow> TextDecoder_decode ''windows-1252'' False b))
      \<and> decodeUpload b =
        (case TextDecoder_decode ''utf-8'' True b of
           Inr t \<Rightarrow> Inr t
         | Inl e \<Rightarrow> TextDecoder_decode ''iso-8859-1'' False b))
   \<and> (\<exists>t. decodeUpload b = Inr t)"
proof -
  have marks: "take 3 b = [0xEF, 0xBB, 0xBF] \<longrightarrow>
      take 2 b \<noteq> [0xFF, 0xFE] \<and> take 2 b \<noteq> [0xFE, 0xFF]"
  proof
    assume "take 3 b = [0xEF, 0xBB, 0xBF]"
    then have "take 2 (take 3 b) = [0xEF, 0xBB]" by simp
    then have "take 2 b = [0xEF, 0xBB]" by simp
    then show "take 2 b \<noteq> [0xFF, 0xFE] \<and> take 2 b \<noteq> [0xFE, 0xFF]" by simp
  qed
  show ?thesis
    using marks decodeUpload_no_mark [of b] decodeUpload_total [of b]
    by (simp add: decodeUpload_def)
qed

theorem encoding_detection_witness:
  "decodeUpload [0xFF, 0xFE, 0x41, 0x00, 0xE5, 0x00] = Inr [0x41, 0xE5]
   \<and> decodeUpload [0xFE, 0xFF, 0x00, 0x41, 0xD8, 0x3D, 0xDE, 0x00] = Inr [0x41, 0x1F600]
   \<and> decodeUpload [0xEF, 0xBB, 0xBF, 0x41, 0xC3, 0xA5] = Inr [0x41, 0xE5]
   \<and> decodeUpload [0x41, 0xC3, 0xA5] = Inr [0x41, 0xE5]
   \<and> decodeUpload [0x41, 0xE5] = Inr [0x41, 0xE5]"
proof -
  have le: "decodeUpload [0xFF, 0xFE, 0x41, 0x00, 0xE5, 0x00] = Inr [0x41, 0xE5]"
    using encoding_detection [of "[0xFF, 0xFE, 0x41, 0x00, 0xE5, 0x00]"]
    by (simp add: TextDecoder_decode_def get_encoding_def run_decoder_def drop_mark_def
        strip_bom_def utf16_unit_def)
  have be: "decodeUpload [0xFE, 0xFF, 0x00, 0x41, 0xD8, 0x3D, 0xDE, 0x00] = Inr [0x41, 0x1F600]"
    using encoding_detection [of "[0xFE, 0xFF, 0x00, 0x41, 0xD8, 0x3D, 0xDE, 0x00]"]
    by (simp add: TextDecoder_decode_def get_encoding_def run_decoder_def drop_mark_def
        strip_bom_def utf16_unit_def)
  have marked: "decodeUpload [0xEF, 0xBB, 0xBF, 0x41, 0xC3, 0xA5] = Inr [0x41, 0xE5]"
    using encoding_detection [of "[0xEF, 0xBB, 0xBF, 0x41, 0xC3, 0xA5]"]
    by (simp add: TextDecoder_decode_def get_encoding_def run_decoder_def drop_mark_def
        strip_bom_def utf8_start_def)
  have plain: "decodeUpload [0x41, 0xC3, 0xA5] = Inr [0x41, 0xE5]"
    using encoding_detection [of "[0x41, 0xC3, 0xA5]"]
    by (simp add: TextDecoder_decode_def get_encoding_def run_decoder_def drop_mark_def
        strip_bom_def utf8_start_def)
  have latin: "decodeUpload [0x41, 0xE5] = Inr [0x41, 0xE5]"
    using encoding_detection [of "[0x41, 0xE5]"]
    by (simp add: TextDecoder_decode_def get_encoding_def run_decoder_def drop_mark_def
        strip_bom_def utf8_start_def windows1252_def)
  show ?thesis using le be marked plain latin by simp
qed

end
